theory Spec2Isabelle
  imports Main "HOL-Library.Sublist"
begin

section \<open>Text primitives\<close>

text \<open>
  A JavaScript string is modelled as a \<^typ>\<open>string\<close>: a list of 8-bit code units.
  The character classes of the regular expressions the program uses are written out on
  the code of a unit: \<^verbatim>\<open>\s\<close> is TAB, LF, VT, FF, CR, SPACE and NBSP in this range,
  \<^verbatim>\<open>\w\<close> is \<^verbatim>\<open>[A-Za-z0-9_]\<close>. Changing case acts on the ASCII letters; every pattern the
  program looks for after changing case is an ASCII word, so other units never take part
  in a match.
\<close>

datatype error = TypeError | ValidationError | ExtractionError

definition isSpace :: "char \<Rightarrow> bool" where
  "isSpace c = (c \<in> set [CHR 0x09, CHR 0x0A, CHR 0x0B, CHR 0x0C, CHR 0x0D, CHR 0x20, CHR 0xA0])"

definition isWordChar :: "char \<Rightarrow> bool" where
  "isWordChar c = (let n = (of_char c :: nat) in
      (48 \<le> n \<and> n \<le> 57) \<or> (65 \<le> n \<and> n \<le> 90) \<or> n = 95 \<or> (97 \<le> n \<and> n \<le> 122))"

definition isUpperAZ :: "char \<Rightarrow> bool" where
  "isUpperAZ c = (let n = (of_char c :: nat) in 65 \<le> n \<and> n \<le> 90)"

definition isLowerAZ :: "char \<Rightarrow> bool" where
  "isLowerAZ c = (let n = (of_char c :: nat) in 97 \<le> n \<and> n \<le> 122)"

definition toLowerChar :: "char \<Rightarrow> char" where
  "toLowerChar c = (if isUpperAZ c then char_of ((of_char c :: nat) + 32) else c)"

definition toUpperChar :: "char \<Rightarrow> char" where
  "toUpperChar c = (if isLowerAZ c then char_of ((of_char c :: nat) - 32) else c)"

definition toLowerCase :: "string \<Rightarrow> string" where
  "toLowerCase w = map toLowerChar w"

text \<open>
  \<^verbatim>\<open>text.split(/\s+/)\<close>: the pieces between maximal runs of whitespace. A string that
  starts or ends with whitespace gives an empty first or last piece, as in JavaScript.
\<close>

function splitWs :: "string \<Rightarrow> string \<Rightarrow> string list" where
  "splitWs cur [] = [cur]"
| "splitWs cur (c # cs) =
     (if isSpace c then cur # splitWs [] (dropWhile isSpace cs)
      else splitWs (cur @ [c]) cs)"
  by pat_completeness auto
termination
  by (relation "measure (\<lambda>(cur, s). length s)") (auto simp: length_dropWhile_le less_Suc_eq_le)

definition trim :: "string \<Rightarrow> string" where
  "trim s = rev (dropWhile isSpace (rev (dropWhile isSpace s)))"

text \<open>\<^verbatim>\<open>fullText.text.split(/\s+/).filter(w => w.length > 0)\<close> of \<^verbatim>\<open>initialChunkSplit\<close>.\<close>

definition splitWords :: "string \<Rightarrow> string list" where
  "splitWords text = filter (\<lambda>w. length w > 0) (splitWs [] text)"

text \<open>
  \<^verbatim>\<open>EPUBParser.countWords\<close>, which sets the \<^verbatim>\<open>wordCount\<close> of a chapter: besides the empty
  pieces it drops every piece with no \<^verbatim>\<open>\w\<close> unit.
\<close>

definition countWords :: "string \<Rightarrow> nat" where
  "countWords text =
     (if text = [] \<or> trim text = [] then 0
      else length (filter (\<lambda>word. length word > 0 \<and> list_ex isWordChar word)
                     (splitWs [] (trim text))))"

text \<open>
  \<^verbatim>\<open>EPUBSplitterApp.countWords\<close>, the method of the same name that the partitioner calls
  for the chapter markers and the chapter attribution: it counts every piece that is not
  empty.
\<close>

definition countWordsApp :: "string \<Rightarrow> nat" where
  "countWordsApp text = (if text = [] then 0 else length (splitWords text))"

text \<open>\<^verbatim>\<open>s.startsWith(p)\<close>, \<^verbatim>\<open>s.includes(p)\<close> and a match of \<^verbatim>\<open>/[cls]$/\<close>.\<close>

definition startsWith :: "string \<Rightarrow> string \<Rightarrow> bool" where
  "startsWith s p = (take (length p) s = p)"

fun includesStr :: "string \<Rightarrow> string \<Rightarrow> bool" where
  "includesStr [] p = (p = [])"
| "includesStr (c # cs) p = (startsWith (c # cs) p \<or> includesStr cs p)"

definition matchesAtEnd :: "string \<Rightarrow> string \<Rightarrow> bool" where
  "matchesAtEnd cls s = (case rev s of [] \<Rightarrow> False | c # _ \<Rightarrow> c \<in> set cls)"

section \<open>Break-point scoring and search\<close>

definition transitionWords :: "string list" where
  "transitionWords =
     [''however'', ''therefore'', ''meanwhile'', ''furthermore'', ''moreover'', ''consequently'']"

definition doubleNewline :: string where
  "doubleNewline = [CHR 0x0A, CHR 0x0A]"

text \<open>
  \<^verbatim>\<open>calculateBreakPointScore(words, splitIndex)\<close>. Indices are natural numbers: the callers
  pass \<^verbatim>\<open>Math.floor(length / 2)\<close> and loop counters that start at 1 or above, and a
  negative index would take the first branch like 0 does.
\<close>

definition calculateBreakPointScore :: "string list \<Rightarrow> nat \<Rightarrow> nat" where
  "calculateBreakPointScore words splitIndex =
     (if splitIndex \<le> 0 \<or> splitIndex \<ge> length words then 0
      else
        let beforeWord = words ! (splitIndex - 1);
            afterWord = words ! splitIndex;
            score = 0;
            score = (if matchesAtEnd ''.!?'' beforeWord then score + 100 else score);
            score = (if includesStr beforeWord doubleNewline \<or> includesStr afterWord doubleNewline
                     then score + 80 else score);
            score = (if matchesAtEnd ''.!?;:'' beforeWord then score + 60 else score);
            score = (if (case afterWord of [] \<Rightarrow> False
                         | c # _ \<Rightarrow> c = toUpperChar c \<and> isUpperAZ c)
                     then score + 40 else score);
            score = (if includesStr (toLowerCase beforeWord) ''chapter''
                        \<or> includesStr (toLowerCase afterWord) ''chapter''
                     then score + 90 else score);
            score = (if list_ex (\<lambda>word. startsWith (toLowerCase afterWord) word) transitionWords
                     then score + 30 else score)
        in score)"

text \<open>
  \<^verbatim>\<open>findOptimalSplitPoint(words, targetSplit)\<close>.
  \<^verbatim>\<open>Math.floor(words.length * 0.1)\<close> is \<open>length words div 10\<close>: the double nearest to
  \<open>n * 0.1\<close> has the integer part of \<open>n / 10\<close> for every length a list can have.
  \<^verbatim>\<open>Math.max(1, targetSplit - searchRange)\<close> is 1 when the difference is negative, which
  the truncating subtraction of \<^typ>\<open>nat\<close> gives too; \<^verbatim>\<open>words.length - 1\<close> is \<open>-1\<close> on
  an empty list and 0 here, and the loop, which starts at 1 or above, is empty in both cases.
\<close>

definition findOptimalSplitPoint :: "string list \<Rightarrow> nat \<Rightarrow> nat" where
  "findOptimalSplitPoint words targetSplit =
     (let searchRange = min 50 (length words div 10);
          minSplit = max 1 (targetSplit - searchRange);
          maxSplit = min (length words - 1) (targetSplit + searchRange)
      in fst (fold (\<lambda>i (bestSplit, bestScore).
                      let score = calculateBreakPointScore words i
                      in if score > bestScore then (i, score) else (bestSplit, bestScore))
                   [minSplit ..< Suc maxSplit]
                   (targetSplit, calculateBreakPointScore words targetSplit)))"

section \<open>Chunks\<close>

text \<open>
  The working chunk of the partitioner. The field \<^verbatim>\<open>id\<close> of the source is \<open>chunkId\<close>
  here. Counts and word indices are natural numbers: the program builds them from list
  lengths, sums and split points only.
\<close>

record chunk =
  chunkId :: string
  title :: string
  words :: "string list"
  wordCount :: nat
  startWordIndex :: nat
  endWordIndex :: nat

definition digitChar :: "nat \<Rightarrow> char" where
  "digitChar d = char_of (48 + d)"

fun showNat :: "nat \<Rightarrow> string" where
  "showNat n = (if n < 10 then [digitChar n] else showNat (n div 10) @ [digitChar (n mod 10)])"

declare showNat.simps [simp del]

definition chunkIdOf :: "nat \<Rightarrow> string" where
  "chunkIdOf n = ''chunk-'' @ showNat n"

definition chunkTitleOf :: "nat \<Rightarrow> string" where
  "chunkTitleOf n = ''Chunk '' @ showNat n"

text \<open>
  \<^verbatim>\<open>xs.slice(s, e)\<close> and \<^verbatim>\<open>xs.splice(start, deleteCount, ...items)\<close> for arguments that are
  not negative; both clamp at the end of the list as JavaScript does.
\<close>

definition slice :: "'a list \<Rightarrow> nat \<Rightarrow> nat \<Rightarrow> 'a list" where
  "slice xs s e = take (e - s) (drop s xs)"

definition splice :: "'a list \<Rightarrow> nat \<Rightarrow> nat \<Rightarrow> 'a list \<Rightarrow> 'a list" where
  "splice xs start deleteCount items = take start xs @ items @ drop (start + deleteCount) xs"

subsection \<open>The corpus\<close>

record content =
  title_c :: string
  textContent_c :: string
  htmlContent_c :: string

record chapterMarker =
  title_m :: string
  startPosition :: nat
  endPosition :: nat
  textContent_m :: string
  htmlContent_m :: string

record fullText =
  text_f :: string
  html_f :: string
  totalWords :: nat
  chapterMarkers :: "chapterMarker list"

text \<open>
  \<^verbatim>\<open>combineContentWithMarkers\<close>: the \<^verbatim>\<open>forEach\<close> is a fold over the chapters whose state is
  the four variables the callback updates; \<open>currentPosition\<close> is the field \<open>totalWords\<close>.
\<close>

definition combineContentWithMarkers :: "content list \<Rightarrow> fullText" where
  "combineContentWithMarkers cont =
     fold (\<lambda>chapter acc.
             let chapterText = textContent_c chapter;
                 chapterHtml = htmlContent_c chapter;
                 currentPosition = totalWords acc
             in \<lparr> text_f = text_f acc @ chapterText @ doubleNewline,
                  html_f = html_f acc @ chapterHtml @ doubleNewline,
                  totalWords = currentPosition + countWordsApp chapterText,
                  chapterMarkers = chapterMarkers acc @
                    [\<lparr> title_m = title_c chapter,
                       startPosition = currentPosition,
                       endPosition = currentPosition + countWordsApp chapterText,
                       textContent_m = chapterText,
                       htmlContent_m = chapterHtml \<rparr>] \<rparr>)
          cont
          \<lparr> text_f = [], html_f = [], totalWords = 0, chapterMarkers = [] \<rparr>"

subsection \<open>The initial split\<close>

text \<open>
  \<^verbatim>\<open>initialChunkSplit(fullText, chunkCount, targetWords)\<close>. The loop runs for
  \<open>i = 0, ..., chunkCount - 1\<close> and not at all when \<open>chunkCount\<close> is 0 or negative;
  \<open>wordsPerChunk\<close> is read only inside the loop, where \<open>chunkCount\<close> is positive and the
  quotient is not negative.
\<close>

definition initialChunkSplit :: "fullText \<Rightarrow> int \<Rightarrow> int \<Rightarrow> chunk list" where
  "initialChunkSplit ft chunkCount targetWords =
     (let ws = splitWords (text_f ft);
          wordsPerChunk = nat (int (length ws) div chunkCount)
      in map (\<lambda>i.
                let startIndex = i * wordsPerChunk;
                    endIndex = (if int i = chunkCount - 1 then length ws
                                else (i + 1) * wordsPerChunk);
                    chunkWords = slice ws startIndex endIndex
                in \<lparr> chunkId = chunkIdOf (i + 1),
                     title = chunkTitleOf (i + 1),
                     words = chunkWords,
                     wordCount = length chunkWords,
                     startWordIndex = startIndex,
                     endWordIndex = endIndex \<rparr>)
             [0 ..< nat chunkCount])"

subsection \<open>One refinement iteration\<close>

text \<open>
  The two halves of a chunk split at \<^verbatim>\<open>findOptimalSplitPoint\<close> of its midpoint. The source
  writes this object pair twice: in the first loop, numbered from
  \<^verbatim>\<open>refinedChunks.length\<close>, and in the closing split loop, numbered from \<^verbatim>\<open>largestIndex\<close>;
  \<open>n\<close> is that number.
\<close>

definition splitParts :: "chunk \<Rightarrow> nat \<Rightarrow> chunk list" where
  "splitParts c n =
     (let splitPoint = findOptimalSplitPoint (words c) (length (words c) div 2);
          firstPart = \<lparr> chunkId = chunkIdOf (n + 1),
                        title = chunkTitleOf (n + 1),
                        words = slice (words c) 0 splitPoint,
                        wordCount = splitPoint,
                        startWordIndex = startWordIndex c,
                        endWordIndex = startWordIndex c + splitPoint \<rparr>;
          secondPart = \<lparr> chunkId = chunkIdOf (n + 2),
                         title = chunkTitleOf (n + 2),
                         words = drop splitPoint (words c),
                         wordCount = length (words c) - splitPoint,
                         startWordIndex = startWordIndex c + splitPoint,
                         endWordIndex = endWordIndex c \<rparr>
      in [firstPart, secondPart])"

text \<open>
  The first loop of \<^verbatim>\<open>performChunkRefinement\<close>: one pass over the chunks, left to right;
  the third argument is what is left of \<^verbatim>\<open>chunks\<close> from index \<open>i\<close> on, the fourth is
  \<^verbatim>\<open>refinedChunks\<close>. A merge takes the next chunk of the input as it stands and skips it.
  \<^verbatim>\<open>combinedWordCount <= maxWords * 1.2\<close> compares an integer with the double nearest to
  six fifths of an integer, which is \<open>5 * combinedWordCount \<le> 6 * maxWords\<close>.
\<close>

fun refinementPass :: "int \<Rightarrow> int \<Rightarrow> chunk list \<Rightarrow> chunk list \<Rightarrow> chunk list" where
  "refinementPass minWords maxWords [] refinedChunks = refinedChunks"
| "refinementPass minWords maxWords (c # rest) refinedChunks =
     (if int (wordCount c) > maxWords then
        refinementPass minWords maxWords rest
          (refinedChunks @ splitParts c (length refinedChunks))
      else if int (wordCount c) < minWords \<and> rest \<noteq> [] then
        (let nextChunk = hd rest;
             combinedWordCount = wordCount c + wordCount nextChunk
         in if 5 * int combinedWordCount \<le> 6 * maxWords then
              refinementPass minWords maxWords (tl rest)
                (refinedChunks @
                  [\<lparr> chunkId = chunkIdOf (length refinedChunks + 1),
                      title = chunkTitleOf (length refinedChunks + 1),
                      words = words c @ words nextChunk,
                      wordCount = combinedWordCount,
                      startWordIndex = startWordIndex c,
                      endWordIndex = endWordIndex nextChunk \<rparr>])
            else refinementPass minWords maxWords rest (refinedChunks @ [c]))
      else refinementPass minWords maxWords rest (refinedChunks @ [c]))"

text \<open>
  The body of \<^verbatim>\<open>while (refinedChunks.length > targetCount)\<close>. The search for the smallest
  chunk runs over the indices 1 to \<open>length - 2\<close>. Reading \<^verbatim>\<open>.words\<close> of an element that is
  not there throws a TypeError: that happens exactly when the list has fewer than two chunks.
\<close>

definition smallestIndexOf :: "chunk list \<Rightarrow> nat" where
  "smallestIndexOf cs =
     fold (\<lambda>i smallestIndex.
             if wordCount (cs ! i) < wordCount (cs ! smallestIndex) then i else smallestIndex)
          [1 ..< length cs - 1] 0"

definition mergeSmallest :: "chunk list \<Rightarrow> error + chunk list" where
  "mergeSmallest cs =
     (let smallestIndex = smallestIndexOf cs;
          targetIndex = (if smallestIndex = 0 then 1 else smallestIndex - 1);
          lo = min smallestIndex targetIndex;
          hi = max smallestIndex targetIndex
      in if length cs \<le> lo \<or> length cs \<le> hi then Inl TypeError
         else
           let merged = \<lparr> chunkId = chunkIdOf (targetIndex + 1),
                           title = chunkTitleOf (targetIndex + 1),
                           words = words (cs ! lo) @ words (cs ! hi),
                           wordCount = wordCount (cs ! smallestIndex) + wordCount (cs ! targetIndex),
                           startWordIndex = min (startWordIndex (cs ! smallestIndex))
                                                (startWordIndex (cs ! targetIndex)),
                           endWordIndex = max (endWordIndex (cs ! smallestIndex))
                                              (endWordIndex (cs ! targetIndex)) \<rparr>
           in Inr (splice (splice cs hi 1 []) lo 1 [merged]))"

text \<open>
  The body of \<^verbatim>\<open>while (refinedChunks.length < targetCount)\<close>. On an empty list
  \<^verbatim>\<open>refinedChunks[0]\<close> is undefined and reading \<^verbatim>\<open>chunk.words\<close> throws.
\<close>

definition largestIndexOf :: "chunk list \<Rightarrow> nat" where
  "largestIndexOf cs =
     fold (\<lambda>i largestIndex.
             if wordCount (cs ! i) > wordCount (cs ! largestIndex) then i else largestIndex)
          [1 ..< length cs] 0"

definition splitLargest :: "chunk list \<Rightarrow> error + chunk list" where
  "splitLargest cs =
     (let largestIndex = largestIndexOf cs
      in if length cs \<le> largestIndex then Inl TypeError
         else Inr (splice cs largestIndex 1 (splitParts (cs ! largestIndex) largestIndex)))"

definition renumber :: "chunk list \<Rightarrow> chunk list" where
  "renumber cs =
     map (\<lambda>(index, c). c\<lparr> chunkId := chunkIdOf (index + 1), title := chunkTitleOf (index + 1) \<rparr>)
         (enumerate 0 cs)"

text \<open>
  The two closing loops change the number of chunks by exactly one in each round; their
  termination rests on that.
\<close>

lemma length_splice:
  "start + deleteCount \<le> length xs \<Longrightarrow>
   length (splice xs start deleteCount items) = length xs - deleteCount + length items"
  by (simp add: splice_def)

lemma length_splitParts: "length (splitParts c n) = 2"
  by (simp add: splitParts_def Let_def)

lemma smallestIndexOf_bound: "smallestIndexOf cs \<le> length cs - 2"
proof -
  have "fold (\<lambda>i smallestIndex.
             if wordCount (cs ! i) < wordCount (cs ! smallestIndex) then i else smallestIndex)
          is k \<le> m" if "k \<le> m" "\<forall>i \<in> set is. i \<le> m" for "is" k m
    using that by (induction "is" arbitrary: k) auto
  from this [of 0 "length cs - 2" "[1 ..< length cs - 1]"] show ?thesis
    unfolding smallestIndexOf_def by fastforce
qed

lemma largestIndexOf_bound: "largestIndexOf cs \<le> length cs - 1"
proof -
  have "fold (\<lambda>i largestIndex.
             if wordCount (cs ! i) > wordCount (cs ! largestIndex) then i else largestIndex)
          is k \<le> m" if "k \<le> m" "\<forall>i \<in> set is. i \<le> m" for "is" k m
    using that by (induction "is" arbitrary: k) auto
  from this [of 0 "length cs - 1" "[1 ..< length cs]"] show ?thesis
    unfolding largestIndexOf_def by fastforce
qed

lemma mergeSmallest_length:
  assumes "mergeSmallest cs = Inr cs'"
  shows "Suc (length cs') = length cs"
proof -
  define s where "s = smallestIndexOf cs"
  define t where "t = (if s = 0 then 1 else s - 1)"
  have hi: "max s t < length cs" and lo: "min s t < length cs"
    using assms unfolding mergeSmallest_def Let_def s_def t_def
    by (auto split: if_splits)
  have lohi: "max s t = Suc (min s t)"
    unfolding t_def by auto
  show ?thesis
    using assms hi lo lohi unfolding mergeSmallest_def Let_def s_def [symmetric] t_def [symmetric]
    by (auto simp: splice_def split: if_splits)
qed

lemma splitLargest_length:
  assumes "splitLargest cs = Inr cs'"
  shows "length cs' = Suc (length cs)"
  using assms unfolding splitLargest_def Let_def
  by (auto simp: length_splice length_splitParts split: if_splits)

function mergeLoop :: "chunk list \<Rightarrow> int \<Rightarrow> error + chunk list" where
  "mergeLoop refinedChunks targetCount =
     (if int (length refinedChunks) > targetCount then
        (case mergeSmallest refinedChunks of
           Inl e \<Rightarrow> Inl e
         | Inr merged \<Rightarrow> mergeLoop merged targetCount)
      else Inr refinedChunks)"
  by pat_completeness auto
termination
proof (relation "measure (\<lambda>(cs, k). length cs)")
  show "wf (measure (\<lambda>(cs, k). length cs))" by simp
next
  fix refinedChunks :: "chunk list" and targetCount :: int and merged
  assume "mergeSmallest refinedChunks = Inr merged"
  then show "((merged, targetCount), (refinedChunks, targetCount)) \<in> measure (\<lambda>(cs, k). length cs)"
    using mergeSmallest_length by fastforce
qed

function splitLoop :: "chunk list \<Rightarrow> int \<Rightarrow> error + chunk list" where
  "splitLoop refinedChunks targetCount =
     (if int (length refinedChunks) < targetCount then
        (case splitLargest refinedChunks of
           Inl e \<Rightarrow> Inl e
         | Inr parts \<Rightarrow> splitLoop parts targetCount)
      else Inr refinedChunks)"
  by pat_completeness auto
termination
proof (relation "measure (\<lambda>(cs, k). nat (k - int (length cs)))")
  show "wf (measure (\<lambda>(cs, k). nat (k - int (length cs))))" by simp
next
  fix refinedChunks :: "chunk list" and targetCount :: int and parts
  assume "int (length refinedChunks) < targetCount" "splitLargest refinedChunks = Inr parts"
  then show "((parts, targetCount), (refinedChunks, targetCount))
      \<in> measure (\<lambda>(cs, k). nat (k - int (length cs)))"
    using splitLargest_length by fastforce
qed

declare mergeLoop.simps [simp del]
declare splitLoop.simps [simp del]

text \<open>\<^verbatim>\<open>performChunkRefinement(chunks, targetCount, targetWords, tolerance)\<close>.\<close>

definition performChunkRefinement ::
  "chunk list \<Rightarrow> int \<Rightarrow> int \<Rightarrow> int \<Rightarrow> error + chunk list" where
  "performChunkRefinement chunks targetCount targetWords tolerance =
     (let minWords = targetWords - tolerance;
          maxWords = targetWords + tolerance;
          refinedChunks = refinementPass minWords maxWords chunks []
      in case mergeLoop refinedChunks targetCount of
           Inl e \<Rightarrow> Inl e
         | Inr merged \<Rightarrow>
             (case splitLoop merged targetCount of
                Inl e \<Rightarrow> Inl e
              | Inr parts \<Rightarrow> Inr (renumber parts)))"

subsection \<open>The bounded refinement recursion\<close>

definition needsRefinement :: "chunk list \<Rightarrow> int \<Rightarrow> int \<Rightarrow> int \<Rightarrow> bool" where
  "needsRefinement chunks targetCount targetWords tolerance =
     (let minWords = targetWords - tolerance;
          maxWords = targetWords + tolerance
      in list_ex (\<lambda>c. int (wordCount c) < minWords \<or> int (wordCount c) > maxWords) chunks
         \<or> int (length chunks) \<noteq> targetCount)"

function refineChunksRecursively ::
  "chunk list \<Rightarrow> int \<Rightarrow> int \<Rightarrow> int \<Rightarrow> nat \<Rightarrow> nat \<Rightarrow> error + chunk list" where
  "refineChunksRecursively chunks targetCount targetWords tolerance iteration maxIterations =
     (if iteration \<ge> maxIterations then Inr chunks
      else if \<not> needsRefinement chunks targetCount targetWords tolerance then Inr chunks
      else
        (case performChunkRefinement chunks targetCount targetWords tolerance of
           Inl e \<Rightarrow> Inl e
         | Inr refinedChunks \<Rightarrow>
             refineChunksRecursively refinedChunks targetCount targetWords tolerance
               (iteration + 1) maxIterations))"
  by pat_completeness auto
termination
  by (relation "measure (\<lambda>(cs, k, tw, tol, it, mx). mx - it)") auto

declare refineChunksRecursively.simps [simp del]

subsection \<open>Finalisation and the entry points\<close>

record finalChunk =
  id_fc :: string
  title_fc :: string
  textContent_fc :: string
  htmlContent_fc :: string
  wordCount_fc :: nat
  startChapter :: string
  endChapter :: string

text \<open>
  \<^verbatim>\<open>findChapterAtPosition\<close>: the position can be \<open>-1\<close> (the end index of an empty first
  chunk, minus one), so it is an integer. The result is \<open>None\<close> where the source returns
  \<^verbatim>\<open>undefined\<close>, the last element of an empty array.
\<close>

fun chapterAt :: "int \<Rightarrow> nat \<Rightarrow> content list \<Rightarrow> content option" where
  "chapterAt wordPosition currentPosition [] = None"
| "chapterAt wordPosition currentPosition (chapter # rest) =
     (let chapterWordCount = countWordsApp (textContent_c chapter)
      in if wordPosition \<ge> int currentPosition
            \<and> wordPosition < int (currentPosition + chapterWordCount)
         then Some chapter
         else chapterAt wordPosition (currentPosition + chapterWordCount) rest)"

definition findChapterAtPosition :: "int \<Rightarrow> content list \<Rightarrow> content option" where
  "findChapterAtPosition wordPosition originalContent =
     (case chapterAt wordPosition 0 originalContent of
        Some chapter \<Rightarrow> Some chapter
      | None \<Rightarrow> (if originalContent = [] then None else Some (last originalContent)))"

text \<open>
  \<^verbatim>\<open>escapeHtml\<close> writes the text into a DOM element and reads its markup back; the
  serialiser of a text node escapes these four units.
\<close>

definition escapeHtml :: "string \<Rightarrow> string" where
  "escapeHtml s =
     concat (map (\<lambda>c. if c = CHR ''&'' then ''&amp;''
                       else if c = CHR ''<'' then ''&lt;''
                       else if c = CHR ''>'' then ''&gt;''
                       else if c = CHR 0xA0 then ''&nbsp;''
                       else [c]) s)"

fun joinWith :: "string \<Rightarrow> string list \<Rightarrow> string" where
  "joinWith sep [] = []"
| "joinWith sep [w] = w"
| "joinWith sep (w # ws) = w @ sep @ joinWith sep ws"

definition titleOrUnknown :: "content option \<Rightarrow> string" where
  "titleOrUnknown found =
     (case found of
        None \<Rightarrow> ''Unknown''
      | Some chapter \<Rightarrow> (if title_c chapter = [] then ''Unknown'' else title_c chapter))"

definition formatFinalChunks :: "chunk list \<Rightarrow> content list \<Rightarrow> finalChunk list" where
  "formatFinalChunks chunks originalContent =
     map (\<lambda>c.
            let textContent = joinWith '' '' (words c);
                startCh = findChapterAtPosition (int (startWordIndex c)) originalContent;
                endCh = findChapterAtPosition (int (endWordIndex c) - 1) originalContent;
                htmlContent = ''<div class='' @ [CHR 0x22] @ ''chunk-content'' @ [CHR 0x22] @ ''>''
                              @ escapeHtml textContent @ ''</div>''
            in \<lparr> id_fc = chunkId c,
                 title_fc = title c,
                 textContent_fc = textContent,
                 htmlContent_fc = htmlContent,
                 wordCount_fc = wordCount c,
                 startChapter = titleOrUnknown startCh,
                 endChapter = titleOrUnknown endCh \<rparr>)
         chunks"

text \<open>
  \<^verbatim>\<open>createIntelligentChunks\<close>; the partition before formatting is \<open>refinedPartition\<close>, the
  value of the variable \<^verbatim>\<open>chunks\<close> after the call of \<^verbatim>\<open>refineChunksRecursively\<close>.
\<close>

definition refinedPartition :: "content list \<Rightarrow> int \<Rightarrow> int \<Rightarrow> int \<Rightarrow> error + chunk list" where
  "refinedPartition cont chunkCount targetWords tolerance =
     (let ft = combineContentWithMarkers cont;
          chunks = initialChunkSplit ft chunkCount targetWords
      in refineChunksRecursively chunks chunkCount targetWords tolerance 0 5)"

definition createIntelligentChunks ::
  "content list \<Rightarrow> int \<Rightarrow> int \<Rightarrow> int \<Rightarrow> error + finalChunk list" where
  "createIntelligentChunks cont chunkCount targetWords tolerance =
     (case refinedPartition cont chunkCount targetWords tolerance of
        Inl e \<Rightarrow> Inl e
      | Inr chunks \<Rightarrow> Inr (formatFinalChunks chunks cont))"

subsection \<open>Chapters and the two entry points\<close>

text \<open>
  A chapter as the parser builds it (the constant fields \<^verbatim>\<open>parentId\<close> and \<^verbatim>\<open>children\<close> are
  left out). Both extraction paths set \<^verbatim>\<open>wordCount\<close> to \<^verbatim>\<open>countWords(textContent)\<close>.
\<close>

record chapterEntry =
  id_ch :: string
  title_ch :: string
  htmlContent_ch :: string
  textContent_ch :: string
  wordCount_ch :: nat
  spineOrder :: nat

definition totalWordsOf :: "chapterEntry list \<Rightarrow> nat" where
  "totalWordsOf chapters = fold (\<lambda>chapter sum. sum + wordCount_ch chapter) chapters 0"

text \<open>
  \<^verbatim>\<open>chapters.sort((a, b) => a.spineOrder - b.spineOrder).map(...)\<close>; the sort of the array
  is stable, as \<^const>\<open>sort_key\<close> is.
\<close>

definition fullContentOf :: "chapterEntry list \<Rightarrow> content list" where
  "fullContentOf chapters =
     map (\<lambda>chapter. \<lparr> title_c = title_ch chapter,
                       textContent_c = textContent_ch chapter,
                       htmlContent_c = htmlContent_ch chapter \<rparr>)
         (sort_key spineOrder chapters)"

text \<open>
  \<^verbatim>\<open>Math.floor(totalWords / chunkCount)\<close> and \<^verbatim>\<open>Math.floor(targetWordsPerChunk * 0.1)\<close>.
  The chunk count is the integer \<^verbatim>\<open>parseInt\<close> returned. For the count 0 the source divides
  by zero and the target is infinite or not a number; no chunk exists then and the target is
  never compared with anything, so the value \<open>0\<close> that \<open>div\<close> gives does not change a
  result. The product with \<open>0.1\<close> is a double whose integer part is that of a tenth.
\<close>

definition targetWordsPerChunkOf :: "chapterEntry list \<Rightarrow> int \<Rightarrow> int" where
  "targetWordsPerChunkOf chapters chunkCount = int (totalWordsOf chapters) div chunkCount"

definition toleranceOf :: "chapterEntry list \<Rightarrow> int \<Rightarrow> int" where
  "toleranceOf chapters chunkCount = targetWordsPerChunkOf chapters chunkCount div 10"

text \<open>
  \<^verbatim>\<open>splitIntoChunks\<close>, for a loaded book and a chunk count that parsed to an integer: the
  value it stores in \<^verbatim>\<open>this.currentChunks\<close>, or the error it throws. It does not check the
  chunk count.
\<close>

definition splitIntoChunks :: "chapterEntry list \<Rightarrow> int \<Rightarrow> error + finalChunk list" where
  "splitIntoChunks chapters chunkCount =
     (let targetWordsPerChunk = targetWordsPerChunkOf chapters chunkCount;
          tolerance = toleranceOf chapters chunkCount;
          fullContent = fullContentOf chapters
      in createIntelligentChunks fullContent chunkCount targetWordsPerChunk tolerance)"

text \<open>The working chunks of that call before they are formatted: they carry the word ranges.\<close>

definition workingPartition :: "chapterEntry list \<Rightarrow> int \<Rightarrow> error + chunk list" where
  "workingPartition chapters chunkCount =
     refinedPartition (fullContentOf chapters) chunkCount
       (targetWordsPerChunkOf chapters chunkCount) (toleranceOf chapters chunkCount)"

text \<open>
  The corpus: the chapter texts in the order of their \<open>spineOrder\<close>, each followed by a
  blank line, and its word sequence: the pieces between whitespace that are not empty.
\<close>

definition concatenatedTexts :: "chapterEntry list \<Rightarrow> string" where
  "concatenatedTexts chapters =
     concat (map (\<lambda>chapter. textContent_ch chapter @ doubleNewline) (sort_key spineOrder chapters))"

definition corpusWords :: "chapterEntry list \<Rightarrow> string list" where
  "corpusWords chapters = splitWords (concatenatedTexts chapters)"

text \<open>
  \<^verbatim>\<open>calculateChunks\<close>, the preview: \<open>None\<close> is the \<^verbatim>\<open>NaN\<close> of \<^verbatim>\<open>parseInt\<close>. The alert and
  early return is the validation error.
\<close>

record preview =
  totalWords_p :: nat
  targetWordsPerChunk_p :: int
  minWords_p :: int
  maxWords_p :: int

definition calculateChunks :: "chapterEntry list \<Rightarrow> int option \<Rightarrow> error + preview" where
  "calculateChunks chapters parsed =
     (case parsed of
        None \<Rightarrow> Inl ValidationError
      | Some chunkCount \<Rightarrow>
          if chunkCount < 2 then Inl ValidationError
          else
            let totalWords = totalWordsOf chapters;
                targetWordsPerChunk = int totalWords div chunkCount;
                tolerance = targetWordsPerChunk div 10
            in Inr \<lparr> totalWords_p = totalWords,
                      targetWordsPerChunk_p = targetWordsPerChunk,
                      minWords_p = targetWordsPerChunk - tolerance,
                      maxWords_p = targetWordsPerChunk + tolerance \<rparr>)"

section \<open>Chapter extraction\<close>

text \<open>
  The manifest is the association list \<^verbatim>\<open>Object.entries(manifest)\<close> in the enumeration
  order of the object; \<^verbatim>\<open>manifest[id]\<close> is \<^const>\<open>map_of\<close>.
\<close>

record manifestItem =
  href :: string
  mediaType :: string
  properties :: string

type_synonym manifest = "(string \<times> manifestItem) list"

record spineItem =
  idref :: string
  order_s :: nat
  linear_s :: bool

record navItem =
  id_n :: string
  title_n :: string
  href_n :: string

text \<open>
  What the parser gets from its collaborators, the ZIP reader and the DOM: whether
  \<^verbatim>\<open>zip.files[path]\<close> exists, and the results of \<^verbatim>\<open>extractHTMLContent(zip, path)\<close>,
  \<^verbatim>\<open>extractFragmentContent(html, fragmentId)\<close> and \<^verbatim>\<open>extractTextContent(html)\<close>, each of
  which may throw.
\<close>

record services =
  files :: "string \<Rightarrow> bool"
  extractHTMLContent :: "string \<Rightarrow> error + string"
  extractFragmentContent :: "string \<Rightarrow> string \<Rightarrow> error + string"
  extractTextContent :: "string \<Rightarrow> error + string"

definition endsWith :: "string \<Rightarrow> string \<Rightarrow> bool" where
  "endsWith s p = (length p \<le> length s \<and> drop (length s - length p) s = p)"

text \<open>\<^verbatim>\<open>s.split('#')[0]\<close>, \<^verbatim>\<open>s.split('#')[1]\<close> for a string with a \<^verbatim>\<open>#\<close>, and \<^verbatim>\<open>s.split('/').pop()\<close>.\<close>

definition beforeHash :: "string \<Rightarrow> string" where
  "beforeHash s = takeWhile (\<lambda>c. c \<noteq> CHR ''#'') s"

definition afterHash :: "string \<Rightarrow> string" where
  "afterHash s = takeWhile (\<lambda>c. c \<noteq> CHR ''#'') (tl (dropWhile (\<lambda>c. c \<noteq> CHR ''#'') s))"

definition afterLastSlash :: "string \<Rightarrow> string" where
  "afterLastSlash s = rev (takeWhile (\<lambda>c. c \<noteq> CHR ''/'') (rev s))"

definition isDigit :: "char \<Rightarrow> bool" where
  "isDigit c = (let n = (of_char c :: nat) in 48 \<le> n \<and> n \<le> 57)"

text \<open>
  \<^verbatim>\<open>parseInt(digits) || 0\<close> on a string of decimal digits: the empty string gives 0. The
  value is the number the digits write, which is what \<^verbatim>\<open>parseInt\<close> returns for up to 15
  digits; from 16 digits on \<^verbatim>\<open>parseInt\<close> rounds to the nearest double, which this
  definition does not follow.
\<close>

definition parseDigits :: "string \<Rightarrow> nat" where
  "parseDigits ds = fold (\<lambda>c n. 10 * n + ((of_char c :: nat) - 48)) ds 0"

text \<open>
  \<^verbatim>\<open>findSpineOrder(manifest, href)\<close>: the digits of the manifest identifier of the first
  entry with that path, read as a number; 999 when no entry has the path. The spine is not
  an argument.
\<close>

definition findSpineOrder :: "manifest \<Rightarrow> string \<Rightarrow> nat" where
  "findSpineOrder manifest h =
     (case find (\<lambda>(ident, item). href item = h) manifest of
        Some (ident, item) \<Rightarrow> parseDigits (filter isDigit ident)
      | None \<Rightarrow> 999)"

definition findManifestItem :: "manifest \<Rightarrow> navItem \<Rightarrow> manifestItem option" where
  "findManifestItem manifest nav =
     find (\<lambda>item. endsWith (href item) (href_n nav)
                   \<or> includesStr (href item) (beforeHash (href_n nav)))
          (map snd manifest)"

text \<open>
  The body of the \<^verbatim>\<open>try\<close> block of \<^verbatim>\<open>extractChaptersFromNavigation\<close> after the key is
  recorded: the chapter it pushes, \<open>None\<close> when the word count is 10 or less, or the
  exception. \<^verbatim>\<open>extractFragmentContent(...) || htmlContent\<close> keeps the whole document when the
  fragment comes back empty.
\<close>

definition navigationChapter ::
  "services \<Rightarrow> manifest \<Rightarrow> navItem \<Rightarrow> manifestItem \<Rightarrow> error + chapterEntry option" where
  "navigationChapter svc manifest nav manifestItem =
     (case extractHTMLContent svc (href manifestItem) of
        Inl e \<Rightarrow> Inl e
      | Inr wholeHtml \<Rightarrow>
          (case (if includesStr (href_n nav) ''#''
                 then (case extractFragmentContent svc wholeHtml (afterHash (href_n nav)) of
                         Inl e \<Rightarrow> Inl e
                       | Inr part \<Rightarrow> Inr (if part = [] then wholeHtml else part))
                 else Inr wholeHtml) of
             Inl e \<Rightarrow> Inl e
           | Inr htmlContent \<Rightarrow>
               (case extractTextContent svc htmlContent of
                  Inl e \<Rightarrow> Inl e
                | Inr textContent \<Rightarrow>
                    let wordCount = countWords textContent
                    in if wordCount > 10 then
                         Inr (Some \<lparr> id_ch = id_n nav,
                                     title_ch = title_n nav,
                                     htmlContent_ch = htmlContent,
                                     textContent_ch = textContent,
                                     wordCount_ch = wordCount,
                                     spineOrder = findSpineOrder manifest (href manifestItem) \<rparr>)
                       else Inr None)))"

text \<open>
  One round of the loop of \<^verbatim>\<open>extractChaptersFromNavigation\<close>; the state is the set
  \<^verbatim>\<open>processedFiles\<close> (as a list) and the array \<^verbatim>\<open>chapters\<close>. An exception inside the
  \<^verbatim>\<open>try\<close> is caught and the round ends; the key stays recorded.
\<close>

definition navigationStep ::
  "services \<Rightarrow> manifest \<Rightarrow> navItem \<Rightarrow> string list \<times> chapterEntry list
     \<Rightarrow> string list \<times> chapterEntry list" where
  "navigationStep svc manifest nav st =
     (case st of (processedFiles, chapters) \<Rightarrow>
        (case findManifestItem manifest nav of
           None \<Rightarrow> (processedFiles, chapters)
         | Some manifestItem \<Rightarrow>
             if \<not> files svc (href manifestItem) then (processedFiles, chapters)
             else
               let fileKey = href manifestItem @ ''#'' @ href_n nav
               in if fileKey \<in> set processedFiles then (processedFiles, chapters)
                  else
                    (case navigationChapter svc manifest nav manifestItem of
                       Inl e \<Rightarrow> (processedFiles @ [fileKey], chapters)
                     | Inr None \<Rightarrow> (processedFiles @ [fileKey], chapters)
                     | Inr (Some ch) \<Rightarrow> (processedFiles @ [fileKey], chapters @ [ch]))))"

definition extractChaptersFromNavigation ::
  "services \<Rightarrow> manifest \<Rightarrow> navItem list \<Rightarrow> chapterEntry list \<Rightarrow> chapterEntry list" where
  "extractChaptersFromNavigation svc manifest navigation chapters =
     snd (fold (navigationStep svc manifest) navigation ([], chapters))"

text \<open>One round of the loop of \<^verbatim>\<open>extractChaptersFromSpine\<close>, at index \<open>i\<close>.\<close>

definition spineStep ::
  "services \<Rightarrow> manifest \<Rightarrow> nat \<Rightarrow> spineItem \<Rightarrow> chapterEntry list \<Rightarrow> chapterEntry list" where
  "spineStep svc manifest i sp chapters =
     (case map_of manifest (idref sp) of
        None \<Rightarrow> chapters
      | Some manifestItem \<Rightarrow>
          if \<not> files svc (href manifestItem) then chapters
          else
            (case extractHTMLContent svc (href manifestItem) of
               Inl e \<Rightarrow> chapters
             | Inr htmlContent \<Rightarrow>
                 (case extractTextContent svc htmlContent of
                    Inl e \<Rightarrow> chapters
                  | Inr textContent \<Rightarrow>
                      let wordCount = countWords textContent;
                          filename = afterLastSlash (href manifestItem)
                      in chapters @
                           [\<lparr> id_ch = ''spine-'' @ showNat i,
                               title_ch = ''Chapter '' @ showNat (i + 1) @ '' ('' @ filename @ '')'',
                               htmlContent_ch = htmlContent,
                               textContent_ch = textContent,
                               wordCount_ch = wordCount,
                               spineOrder = i \<rparr>])))"

fun spineLoop ::
  "services \<Rightarrow> manifest \<Rightarrow> nat \<Rightarrow> spineItem list \<Rightarrow> chapterEntry list \<Rightarrow> chapterEntry list" where
  "spineLoop svc manifest i [] chapters = chapters"
| "spineLoop svc manifest i (sp # rest) chapters =
     spineLoop svc manifest (i + 1) rest (spineStep svc manifest i sp chapters)"

definition extractChaptersFromSpine ::
  "services \<Rightarrow> manifest \<Rightarrow> spineItem list \<Rightarrow> chapterEntry list \<Rightarrow> chapterEntry list" where
  "extractChaptersFromSpine svc manifest spine chapters = spineLoop svc manifest 0 spine chapters"

text \<open>\<^verbatim>\<open>extractChapters\<close>: \<open>None\<close> is the \<^verbatim>\<open>null\<close> navigation.\<close>

definition extractChapters ::
  "services \<Rightarrow> manifest \<Rightarrow> spineItem list \<Rightarrow> navItem list option \<Rightarrow> chapterEntry list" where
  "extractChapters svc manifest spine navigation =
     (case navigation of
        None \<Rightarrow> extractChaptersFromSpine svc manifest spine []
      | Some nav \<Rightarrow>
          if length nav > 0 then extractChaptersFromNavigation svc manifest nav []
          else extractChaptersFromSpine svc manifest spine [])"

text \<open>What the navigation-driven path requires of a chapter it keeps.\<close>

definition keptChapter :: "chapterEntry \<Rightarrow> bool" where
  "keptChapter ch \<longleftrightarrow> 10 < wordCount_ch ch \<and> wordCount_ch ch = countWords (textContent_ch ch)"

section \<open>Properties of a partition\<close>









text \<open>
  The word ranges of a chunk list, sorted by start, run from 0 to \<open>n\<close> when each range
  starts where the one before it ended: no gap and no overlap.
\<close>

fun contiguousFrom :: "nat \<Rightarrow> (nat \<times> nat) list \<Rightarrow> nat \<Rightarrow> bool" where
  "contiguousFrom s [] e = (s = e)"
| "contiguousFrom s ((a, b) # rs) e = (a = s \<and> a \<le> b \<and> contiguousFrom b rs e)"

definition wordRanges :: "chunk list \<Rightarrow> (nat \<times> nat) list" where
  "wordRanges cs = map (\<lambda>c. (startWordIndex c, endWordIndex c)) cs"

definition rangesPartition :: "chunk list \<Rightarrow> nat \<Rightarrow> bool" where
  "rangesPartition cs n = contiguousFrom 0 (sort_key fst (wordRanges cs)) n"

text \<open>
  The invariant of the working chunks: each chunk starts where its predecessor ended, counts
  its own words and ends at its start plus that count.
\<close>

fun chain :: "nat \<Rightarrow> chunk list \<Rightarrow> bool" where
  "chain s [] = True"
| "chain s (c # cs) =
     (startWordIndex c = s \<and> wordCount c = length (words c)
      \<and> endWordIndex c = s + wordCount c \<and> chain (endWordIndex c) cs)"

definition wordTotal :: "chunk list \<Rightarrow> nat" where
  "wordTotal cs = sum_list (map wordCount cs)"

definition allWords :: "chunk list \<Rightarrow> string list" where
  "allWords cs = concat (map words cs)"

text \<open>\<open>n\<close> rounds of \<^const>\<open>performChunkRefinement\<close>, stopping at the first error.\<close>

fun refinementRounds :: "nat \<Rightarrow> chunk list \<Rightarrow> int \<Rightarrow> int \<Rightarrow> int \<Rightarrow> error + chunk list" where
  "refinementRounds 0 cs k tw tol = Inr cs"
| "refinementRounds (Suc n) cs k tw tol =
     (case performChunkRefinement cs k tw tol of
        Inl e \<Rightarrow> Inl e
      | Inr r \<Rightarrow> refinementRounds n r k tw tol)"


text \<open>
  What the search of \<^const>\<open>findOptimalSplitPoint\<close> returns for a desired index, stated
  without the loop. The index lies within the search range \<open>min(50, 10%)\<close> of the desired
  one and scores at least as high as the desired index and as every candidate of the
  window. It is the desired index itself unless a candidate scores strictly higher, and
  then it is the first candidate that reaches the highest score.
\<close>

definition optimalSplit :: "string list \<Rightarrow> nat \<Rightarrow> nat \<Rightarrow> bool" where
  "optimalSplit ws desired sp \<longleftrightarrow>
     (let searchRange = min 50 (length ws div 10);
          lo = max 1 (desired - searchRange);
          hi = min (length ws - 1) (desired + searchRange)
      in desired - searchRange \<le> sp \<and> sp \<le> desired + searchRange
         \<and> calculateBreakPointScore ws desired \<le> calculateBreakPointScore ws sp
         \<and> (\<forall>i \<in> {lo .. hi}. calculateBreakPointScore ws i \<le> calculateBreakPointScore ws sp)
         \<and> (sp = desired
             \<or> (lo \<le> sp \<and> sp \<le> hi
                 \<and> calculateBreakPointScore ws desired < calculateBreakPointScore ws sp
                 \<and> (\<forall>i \<in> {lo ..< sp}.
                       calculateBreakPointScore ws i < calculateBreakPointScore ws sp))))"



text \<open>
  The chunk lists that \<^verbatim>\<open>refineChunksRecursively\<close> hands to \<^verbatim>\<open>performChunkRefinement\<close>, one
  for each iteration it runs, in order: the recursion of \<^const>\<open>refineChunksRecursively\<close>
  with the same two tests, collecting the argument of each call.
\<close>

function refinementInputs ::
  "chunk list \<Rightarrow> int \<Rightarrow> int \<Rightarrow> int \<Rightarrow> nat \<Rightarrow> nat \<Rightarrow> chunk list list" where
  "refinementInputs chunks targetCount targetWords tolerance iteration maxIterations =
     (if iteration \<ge> maxIterations then []
      else if \<not> needsRefinement chunks targetCount targetWords tolerance then []
      else
        chunks #
        (case performChunkRefinement chunks targetCount targetWords tolerance of
           Inl e \<Rightarrow> []
         | Inr refinedChunks \<Rightarrow>
             refinementInputs refinedChunks targetCount targetWords tolerance
               (iteration + 1) maxIterations))"
  by pat_completeness auto
termination
  by (relation "measure (\<lambda>(cs, k, tw, tol, it, mx). mx - it)") auto

declare refinementInputs.simps [simp del]

text \<open>
  The iteration inputs of a call of \<^verbatim>\<open>splitIntoChunks\<close>, and the two bounds
  \<^verbatim>\<open>minWords\<close> and \<^verbatim>\<open>maxWords\<close> that \<^verbatim>\<open>performChunkRefinement\<close> computes in each of them.
\<close>

definition iterationInputs :: "chapterEntry list \<Rightarrow> int \<Rightarrow> chunk list list" where
  "iterationInputs chapters chunkCount =
     (let targetWordsPerChunk = targetWordsPerChunkOf chapters chunkCount;
          tolerance = toleranceOf chapters chunkCount;
          chunks = initialChunkSplit (combineContentWithMarkers (fullContentOf chapters))
                     chunkCount targetWordsPerChunk
      in refinementInputs chunks chunkCount targetWordsPerChunk tolerance 0 5)"



section \<open>Example inputs\<close>

definition demoChapters :: "chapterEntry list" where
  "demoChapters =
     [\<lparr> id_ch = ''spine-1'', title_ch = ''Two'', htmlContent_ch = ''<p>e f g</p>'',
         textContent_ch = ''e f g'', wordCount_ch = 3, spineOrder = 1 \<rparr>,
      \<lparr> id_ch = ''spine-0'', title_ch = ''One'', htmlContent_ch = ''<p>a b. c d</p>'',
         textContent_ch = ''a b. c d'', wordCount_ch = 4, spineOrder = 0 \<rparr>]"

definition threeChunks :: "chunk list" where
  "threeChunks =
     initialChunkSplit (combineContentWithMarkers (fullContentOf demoChapters)) 3 2"

definition emptyChunk :: chunk where
  "emptyChunk = \<lparr> chunkId = ''chunk-1'', title = ''Chunk 1'', words = [], wordCount = 0,
                   startWordIndex = 0, endWordIndex = 0 \<rparr>"


definition demoText :: "string \<Rightarrow> string" where
  "demoText path =
     (if path = ''OEBPS/one.xhtml''
        then ''It was a bright cold day in April and the clocks were striking.''
      else if path = ''OEBPS/end.xhtml''
        then ''And so at last the long story came to its quiet end here.''
      else ''A short note.'')"

definition demoServices :: services where
  "demoServices =
     \<lparr> files = (\<lambda>path. path \<in> set [''OEBPS/one.xhtml'', ''OEBPS/end.xhtml'', ''OEBPS/note.xhtml'']),
       extractHTMLContent = (\<lambda>path. Inr (''<p>'' @ demoText path @ ''</p>'')),
       extractFragmentContent = (\<lambda>html fragmentId. Inr html),
       extractTextContent = (\<lambda>html. Inr (take (length html - 7) (drop 3 html))) \<rparr>"

definition demoManifest :: manifest where
  "demoManifest =
     [(''ch1'', \<lparr> href = ''OEBPS/one.xhtml'', mediaType = ''application/xhtml+xml'', properties = [] \<rparr>),
      (''epilogue'', \<lparr> href = ''OEBPS/end.xhtml'', mediaType = ''application/xhtml+xml'', properties = [] \<rparr>),
      (''note'', \<lparr> href = ''OEBPS/note.xhtml'', mediaType = ''application/xhtml+xml'', properties = [] \<rparr>)]"

definition demoSpine :: "spineItem list" where
  "demoSpine =
     [\<lparr> idref = ''ch1'', order_s = 0, linear_s = True \<rparr>,
      \<lparr> idref = ''epilogue'', order_s = 1, linear_s = True \<rparr>,
      \<lparr> idref = ''note'', order_s = 2, linear_s = True \<rparr>]"

definition demoNavigation :: "navItem list" where
  "demoNavigation =
     [\<lparr> id_n = ''nav-root-0-0'', title_n = ''Chapter One'', href_n = ''one.xhtml'' \<rparr>,
      \<lparr> id_n = ''nav-root-1-0'', title_n = ''Epilogue'', href_n = ''end.xhtml'' \<rparr>,
      \<lparr> id_n = ''nav-root-2-0'', title_n = ''Note'', href_n = ''note.xhtml'' \<rparr>]"


definition dashChapter :: chapterEntry where
  "dashChapter =
     \<lparr> id_ch = ''spine-0'', title_ch = ''Chapter 1 (list.xhtml)'',
       htmlContent_ch = ''<p>one - two - three - four</p>'',
       textContent_ch = ''one - two - three - four'',
       wordCount_ch = countWords ''one - two - three - four'',
       spineOrder = 0 \<rparr>"



section \<open>The scoring rules as the specification words them\<close>

definition bonus :: "bool \<Rightarrow> nat \<Rightarrow> nat" where
  "bonus applies points = (if applies then points else 0)"

definition endsInOneOf :: "string \<Rightarrow> string \<Rightarrow> bool" where
  "endsInOneOf cls w = (\<exists>c \<in> set cls. suffix [c] w)"

definition beginsWithUppercase :: "string \<Rightarrow> bool" where
  "beginsWithUppercase w = (\<exists>c \<in> set ''ABCDEFGHIJKLMNOPQRSTUVWXYZ''. prefix [c] w)"

definition containsIgnoringCase :: "string \<Rightarrow> string \<Rightarrow> bool" where
  "containsIgnoringCase w p = sublist p (toLowerCase w)"

definition startsWithIgnoringCase :: "string \<Rightarrow> string \<Rightarrow> bool" where
  "startsWithIgnoringCase w p = prefix p (toLowerCase w)"

definition breakPointScoreSpec :: "string list \<Rightarrow> nat \<Rightarrow> nat" where
  "breakPointScoreSpec ws i =
     (if i = 0 \<or> length ws \<le> i then 0
      else
        let preceding = ws ! (i - 1); following = ws ! i
        in bonus (endsInOneOf ''.!?'' preceding) 100
         + bonus (sublist doubleNewline preceding \<or> sublist doubleNewline following) 80
         + bonus (endsInOneOf ''.!?;:'' preceding) 60
         + bonus (beginsWithUppercase following) 40
         + bonus (containsIgnoringCase preceding ''chapter''
                  \<or> containsIgnoringCase following ''chapter'') 90
         + bonus (\<exists>t \<in> set transitionWords. startsWithIgnoringCase following t) 30)"

section \<open>Facts about the text primitives\<close>

lemma startsWith_prefix: "startsWith s p \<longleftrightarrow> prefix p s"
  unfolding startsWith_def
  by (metis append_eq_conv_conj prefix_def take_is_prefix)

lemma includes_sublist: "includesStr s p \<longleftrightarrow> sublist p s"
proof (induction s)
  case Nil
  then show ?case by simp
next
  case (Cons c cs)
  then show ?case
    by (simp add: startsWith_prefix sublist_Cons_right)
qed

lemma matchesAtEnd_endsInOneOf: "matchesAtEnd cls s \<longleftrightarrow> endsInOneOf cls s"
proof (cases s rule: rev_cases)
  case Nil
  then show ?thesis by (simp add: matchesAtEnd_def endsInOneOf_def)
next
  case (snoc ys y)
  then show ?thesis by (auto simp: matchesAtEnd_def endsInOneOf_def suffix_def)
qed

lemma isUpperAZ_letters: "isUpperAZ c \<longleftrightarrow> c \<in> set ''ABCDEFGHIJKLMNOPQRSTUVWXYZ''"
  by (cases c) (simp add: isUpperAZ_def)

lemma toUpperChar_upper: "isUpperAZ c \<Longrightarrow> toUpperChar c = c"
  by (simp add: toUpperChar_def isUpperAZ_def isLowerAZ_def Let_def)

lemma firstUnit_beginsWithUppercase:
  "(case w of [] \<Rightarrow> False | c # _ \<Rightarrow> c = toUpperChar c \<and> isUpperAZ c) \<longleftrightarrow> beginsWithUppercase w"
proof (cases w)
  case Nil
  then show ?thesis by (simp add: beginsWithUppercase_def)
next
  case (Cons c cs)
  have "(c = toUpperChar c \<and> isUpperAZ c) \<longleftrightarrow> isUpperAZ c"
    using toUpperChar_upper by auto
  then show ?thesis
    unfolding Cons beginsWithUppercase_def
    by (simp only: list.case isUpperAZ_letters prefix_Cons) auto
qed

lemma some_transitionWord:
  "list_ex (\<lambda>word. startsWith (toLowerCase w) word) transitionWords
   \<longleftrightarrow> (\<exists>t \<in> set transitionWords. startsWithIgnoringCase w t)"
  by (simp add: list_ex_iff startsWith_prefix startsWithIgnoringCase_def)

section \<open>The invariant through the partitioner\<close>

lemma wordTotal_simps [simp]:
  "wordTotal [] = 0" "wordTotal (c # cs) = wordCount c + wordTotal cs" "wordTotal (xs @ ys) = wordTotal xs + wordTotal ys"
  by (simp_all add: wordTotal_def)

lemma allWords_simps [simp]:
  "allWords [] = []" "allWords (c # cs) = words c @ allWords cs"
  "allWords (xs @ ys) = allWords xs @ allWords ys"
  by (simp_all add: allWords_def)

lemma chain_append: "chain s (xs @ ys) \<longleftrightarrow> chain s xs \<and> chain (s + wordTotal xs) ys"
proof (induction xs arbitrary: s)
  case Nil
  then show ?case by simp
next
  case (Cons c cs)
  show ?case
    by (simp add: Cons.IH add.assoc cong: conj_cong)
qed

lemma chain_length_allWords: "chain s cs \<Longrightarrow> length (allWords cs) = wordTotal cs"
  by (induction cs arbitrary: s) auto

lemma findOptimalSplitPoint_le:
  assumes "t \<le> length ws"
  shows "findOptimalSplitPoint ws t \<le> length ws"
proof -
  define step where "step = (\<lambda>i (bestSplit :: nat, bestScore).
                      if calculateBreakPointScore ws i > bestScore
                      then (i, calculateBreakPointScore ws i) else (bestSplit, bestScore))"
  have inv: "fst (fold step is st) \<le> length ws"
    if "fst st \<le> length ws" "\<forall>i \<in> set is. i \<le> length ws" for "is" st
    using that
  proof (induction "is" arbitrary: st)
    case Nil
    then show ?case by simp
  next
    case (Cons i "is")
    have "fst (step i st) \<le> length ws"
      using Cons.prems by (cases st) (simp add: step_def)
    with Cons show ?case by simp
  qed
  show ?thesis
    unfolding findOptimalSplitPoint_def Let_def step_def [symmetric]
  proof (rule inv)
    show "fst (t, calculateBreakPointScore ws t) \<le> length ws"
      using assms by simp
    show "\<forall>i \<in> set [max 1 (t - min 50 (length ws div 10)) ..<
             Suc (min (length ws - 1) (t + min 50 (length ws div 10)))]. i \<le> length ws"
    proof
      fix i
      assume "i \<in> set [max 1 (t - min 50 (length ws div 10)) ..<
             Suc (min (length ws - 1) (t + min 50 (length ws div 10)))]"
      then have "i < Suc (min (length ws - 1) (t + min 50 (length ws div 10)))"
        by (simp only: set_upt atLeastLessThan_iff)
      then have "i \<le> length ws - 1"
        by (simp only: less_Suc_eq_le min.bounded_iff)
      then show "i \<le> length ws" by simp
    qed
  qed
qed

lemma splitPoint_le: "findOptimalSplitPoint ws (length ws div 2) \<le> length ws"
  by (rule findOptimalSplitPoint_le) simp

lemma splitParts_chain:
  assumes "chain s (c # rest)"
  shows "chain s (splitParts c n @ rest)"
  using assms splitPoint_le [of "words c"]
  by (auto simp: splitParts_def Let_def slice_def)

lemma splitParts_allWords: "allWords (splitParts c n) = words c"
  by (simp add: splitParts_def Let_def slice_def)

lemma splitParts_wordTotal:
  "wordCount c = length (words c) \<Longrightarrow> wordTotal (splitParts c n) = wordCount c"
  using splitPoint_le [of "words c"] by (simp add: splitParts_def Let_def)


lemma refinementPass_chain:
  "chain s (acc @ cs) \<Longrightarrow> chain s (refinementPass mn mx cs acc)"
proof (induction mn mx cs acc rule: refinementPass.induct)
  case (1 mn mx acc)
  then show ?case by simp
next
  case (2 mn mx c rest acc)
  show ?case
  proof (cases "int (wordCount c) > mx")
    case True
    have "chain s ((acc @ splitParts c (length acc)) @ rest)"
      using "2.prems" splitParts_chain [of _ c rest "length acc"]
        splitParts_wordTotal [of c "length acc"]
      by (auto simp: chain_append)
    with True "2.IH"(1) show ?thesis by simp
  next
    case False
    show ?thesis
    proof (cases "int (wordCount c) < mn \<and> rest \<noteq> []")
      case outer: True
      then obtain nx rest' where rest: "rest = nx # rest'" by (cases rest) auto
      show ?thesis
      proof (cases "5 * int (wordCount c + wordCount (hd rest)) \<le> 6 * mx")
        case True
        let ?m = "\<lparr> chunkId = chunkIdOf (length acc + 1),
                      title = chunkTitleOf (length acc + 1),
                      words = words c @ words (hd rest),
                      wordCount = wordCount c + wordCount (hd rest),
                      startWordIndex = startWordIndex c,
                      endWordIndex = endWordIndex (hd rest) \<rparr>"
        have "chain s ((acc @ [?m]) @ tl rest)"
          using "2.prems" by (auto simp: chain_append rest)
        from "2.IH"(2) [OF False outer refl refl True this] False outer True
        show ?thesis by (simp add: Let_def)
      next
        case inner: False
        have "chain s ((acc @ [c]) @ rest)" using "2.prems" by simp
        from "2.IH"(3) [OF False outer refl refl inner this] False outer inner
        show ?thesis by (simp add: Let_def)
      qed
    next
      case notmerge: False
      have "chain s ((acc @ [c]) @ rest)" using "2.prems" by simp
      from "2.IH"(4) [OF False notmerge this] False notmerge
      show ?thesis by auto
    qed
  qed
qed

lemma refinementPass_allWords:
  "allWords (refinementPass mn mx cs acc) = allWords acc @ allWords cs"
proof (induction mn mx cs acc rule: refinementPass.induct)
  case (1 mn mx acc)
  then show ?case by simp
next
  case (2 mn mx c rest acc)
  show ?case
  proof (cases "int (wordCount c) > mx")
    case True
    with "2.IH"(1) show ?thesis by (simp add: splitParts_allWords)
  next
    case False
    show ?thesis
    proof (cases "int (wordCount c) < mn \<and> rest \<noteq> []")
      case outer: True
      then obtain nx rest' where rest: "rest = nx # rest'" by (cases rest) auto
      show ?thesis
      proof (cases "5 * int (wordCount c + wordCount (hd rest)) \<le> 6 * mx")
        case True
        from "2.IH"(2) [OF False outer refl refl True] False outer True
        show ?thesis by (simp add: Let_def rest)
      next
        case inner: False
        from "2.IH"(3) [OF False outer refl refl inner] False outer inner
        show ?thesis by (simp add: Let_def)
      qed
    next
      case notmerge: False
      from "2.IH"(4) [OF False notmerge] False notmerge
      show ?thesis by auto
    qed
  qed
qed

lemma refinementPass_length_acc:
  "length acc \<le> length (refinementPass mn mx cs acc)"
proof (induction mn mx cs acc rule: refinementPass.induct)
  case (1 mn mx acc)
  then show ?case by simp
next
  case (2 mn mx c rest acc)
  show ?case
  proof (cases "int (wordCount c) > mx")
    case True
    with "2.IH"(1) show ?thesis by simp
  next
    case False
    show ?thesis
    proof (cases "int (wordCount c) < mn \<and> rest \<noteq> []")
      case outer: True
      show ?thesis
      proof (cases "5 * int (wordCount c + wordCount (hd rest)) \<le> 6 * mx")
        case True
        from "2.IH"(2) [OF False outer refl refl True] False outer True
        show ?thesis by (simp add: Let_def)
      next
        case inner: False
        from "2.IH"(3) [OF False outer refl refl inner] False outer inner
        show ?thesis by (simp add: Let_def)
      qed
    next
      case notmerge: False
      from "2.IH"(4) [OF False notmerge] False notmerge
      show ?thesis by auto
    qed
  qed
qed

lemma refinementPass_nonempty:
  assumes "cs \<noteq> []"
  shows "refinementPass mn mx cs [] \<noteq> []"
proof -
  from assms obtain c rest where cs: "cs = c # rest" by (cases cs) auto
  have grow: "refinementPass mn mx rest' (x # acc') \<noteq> []" for rest' x acc'
    using refinementPass_length_acc [of "x # acc'" mn mx rest'] by auto
  show ?thesis
  proof (cases "int (wordCount c) > mx")
    case True
    then show ?thesis
      unfolding cs using grow by (simp add: splitParts_def Let_def)
  next
    case False
    then show ?thesis
      unfolding cs using grow by (simp add: Let_def)
  qed
qed

lemma splice_merge_shape:
  assumes "Suc lo < length cs"
  shows "splice (splice cs (Suc lo) 1 []) lo 1 [m] = take lo cs @ m # drop (lo + 2) cs"
  using assms by (simp add: splice_def min_def)

lemma list_two_at:
  assumes "Suc lo < length cs"
  shows "cs = take lo cs @ cs ! lo # cs ! Suc lo # drop (lo + 2) cs"
proof -
  have "drop lo cs = cs ! lo # drop (Suc lo) cs"
    using assms by (simp add: Cons_nth_drop_Suc)
  moreover have "drop (Suc lo) cs = cs ! Suc lo # drop (lo + 2) cs"
    using assms by (simp add: Cons_nth_drop_Suc)
  ultimately show ?thesis
    by (metis append_take_drop_id)
qed

lemma chain_merge_pair:
  assumes "chain s (a # b # rest)"
    and "words m = words a @ words b"
    and "wordCount m = wordCount a + wordCount b"
    and "startWordIndex m = min (startWordIndex a) (startWordIndex b)"
    and "endWordIndex m = max (endWordIndex a) (endWordIndex b)"
  shows "chain s (m # rest)"
  using assms by (auto simp: min_def max_def)

lemma mergeSmallest_shape:
  assumes "mergeSmallest cs = Inr cs'"
  obtains lo m where "Suc lo < length cs"
    and "cs' = take lo cs @ m # drop (lo + 2) cs"
    and "words m = words (cs ! lo) @ words (cs ! Suc lo)"
    and "wordCount m = wordCount (cs ! lo) + wordCount (cs ! Suc lo)"
    and "startWordIndex m = min (startWordIndex (cs ! lo)) (startWordIndex (cs ! Suc lo))"
    and "endWordIndex m = max (endWordIndex (cs ! lo)) (endWordIndex (cs ! Suc lo))"
proof -
  define i where "i = smallestIndexOf cs"
  define t where "t = (if i = 0 then 1 else i - 1)"
  define lo where "lo = min i t"
  define m where "m = \<lparr> chunkId = chunkIdOf (t + 1),
                           title = chunkTitleOf (t + 1),
                           words = words (cs ! min i t) @ words (cs ! max i t),
                           wordCount = wordCount (cs ! i) + wordCount (cs ! t),
                           startWordIndex = min (startWordIndex (cs ! i)) (startWordIndex (cs ! t)),
                           endWordIndex = max (endWordIndex (cs ! i)) (endWordIndex (cs ! t)) \<rparr>"
  have hi: "max i t < length cs"
    using assms unfolding mergeSmallest_def Let_def i_def t_def
    by (auto split: if_splits)
  have res: "cs' = splice (splice cs (max i t) 1 []) (min i t) 1 [m]"
    using assms unfolding mergeSmallest_def Let_def i_def [symmetric] t_def [symmetric] m_def
    by (simp split: if_splits)
  have lohi: "max i t = Suc lo" "min i t = lo"
    unfolding t_def lo_def by auto
  have cases: "(i = lo \<and> t = Suc lo) \<or> (t = lo \<and> i = Suc lo)"
    unfolding t_def lo_def by auto
  show thesis
  proof (rule that [of lo m])
    show lo: "Suc lo < length cs" using hi lohi by simp
    show "cs' = take lo cs @ m # drop (lo + 2) cs"
      using res splice_merge_shape [OF lo] by (simp only: lohi)
    show "words m = words (cs ! lo) @ words (cs ! Suc lo)"
      by (simp add: m_def lohi)
    show "wordCount m = wordCount (cs ! lo) + wordCount (cs ! Suc lo)"
      using cases by (elim disjE conjE) (simp_all add: m_def)
    show "startWordIndex m = min (startWordIndex (cs ! lo)) (startWordIndex (cs ! Suc lo))"
      using cases by (elim disjE conjE) (simp_all add: m_def min.commute)
    show "endWordIndex m = max (endWordIndex (cs ! lo)) (endWordIndex (cs ! Suc lo))"
      using cases by (elim disjE conjE) (simp_all add: m_def max.commute)
  qed
qed

lemma mergeSmallest_chain:
  assumes "mergeSmallest cs = Inr cs'" and "chain s cs"
  shows "chain s cs'"
proof -
  from assms(1) obtain lo m where lo: "Suc lo < length cs"
    and cs': "cs' = take lo cs @ m # drop (lo + 2) cs"
    and m: "words m = words (cs ! lo) @ words (cs ! Suc lo)"
      "wordCount m = wordCount (cs ! lo) + wordCount (cs ! Suc lo)"
      "startWordIndex m = min (startWordIndex (cs ! lo)) (startWordIndex (cs ! Suc lo))"
      "endWordIndex m = max (endWordIndex (cs ! lo)) (endWordIndex (cs ! Suc lo))"
    by (rule mergeSmallest_shape)
  have "chain s (take lo cs @ cs ! lo # cs ! Suc lo # drop (lo + 2) cs)"
    using assms(2) list_two_at [OF lo] by metis
  then have pre: "chain s (take lo cs)"
    and mid: "chain (s + wordTotal (take lo cs)) (cs ! lo # cs ! Suc lo # drop (lo + 2) cs)"
    by (simp_all only: chain_append)
  have "chain (s + wordTotal (take lo cs)) (m # drop (lo + 2) cs)"
    by (rule chain_merge_pair [OF mid m])
  with pre show ?thesis
    unfolding cs' by (simp only: chain_append)
qed

lemma mergeSmallest_allWords:
  assumes "mergeSmallest cs = Inr cs'"
  shows "allWords cs' = allWords cs"
proof -
  from assms(1) obtain lo m where lo: "Suc lo < length cs"
    and cs': "cs' = take lo cs @ m # drop (lo + 2) cs"
    and m: "words m = words (cs ! lo) @ words (cs ! Suc lo)"
    by (rule mergeSmallest_shape)
  have "allWords cs = allWords (take lo cs @ cs ! lo # cs ! Suc lo # drop (lo + 2) cs)"
    using list_two_at [OF lo] by metis
  then show ?thesis
    unfolding cs' by (simp add: m)
qed

lemma mergeSmallest_ok:
  assumes "2 \<le> length cs"
  shows "\<exists>cs'. mergeSmallest cs = Inr cs'"
proof -
  have "smallestIndexOf cs \<le> length cs - 2" by (rule smallestIndexOf_bound)
  then show ?thesis
    using assms unfolding mergeSmallest_def Let_def by auto
qed


lemma splitLargest_shape:
  assumes "splitLargest cs = Inr cs'"
  obtains i where "i < length cs"
    and "cs' = take i cs @ splitParts (cs ! i) i @ drop (Suc i) cs"
proof -
  have lt: "largestIndexOf cs < length cs"
    using assms unfolding splitLargest_def Let_def by (simp split: if_splits)
  have "cs' = take (largestIndexOf cs) cs
      @ splitParts (cs ! largestIndexOf cs) (largestIndexOf cs) @ drop (Suc (largestIndexOf cs)) cs"
    using assms lt unfolding splitLargest_def Let_def splice_def by simp
  with lt show thesis by (rule that)
qed

lemma splitLargest_chain:
  assumes "splitLargest cs = Inr cs'" and "chain s cs"
  shows "chain s cs'"
proof -
  from assms(1) obtain i where i: "i < length cs"
    and cs': "cs' = take i cs @ splitParts (cs ! i) i @ drop (Suc i) cs"
    by (rule splitLargest_shape)
  have "chain s (take i cs @ cs ! i # drop (Suc i) cs)"
    using assms(2) id_take_nth_drop [OF i] by metis
  then have pre: "chain s (take i cs)"
    and mid: "chain (s + wordTotal (take i cs)) (cs ! i # drop (Suc i) cs)"
    by (simp_all only: chain_append)
  have "chain (s + wordTotal (take i cs)) (splitParts (cs ! i) i @ drop (Suc i) cs)"
    by (rule splitParts_chain [OF mid])
  with pre show ?thesis
    unfolding cs' by (simp only: chain_append)
qed

lemma splitLargest_allWords:
  assumes "splitLargest cs = Inr cs'"
  shows "allWords cs' = allWords cs"
proof -
  from assms(1) obtain i where i: "i < length cs"
    and cs': "cs' = take i cs @ splitParts (cs ! i) i @ drop (Suc i) cs"
    by (rule splitLargest_shape)
  have "allWords cs = allWords (take i cs @ cs ! i # drop (Suc i) cs)"
    using id_take_nth_drop [OF i] by metis
  then show ?thesis
    unfolding cs' by (simp add: splitParts_allWords)
qed

lemma splitLargest_ok:
  assumes "cs \<noteq> []"
  shows "\<exists>cs'. splitLargest cs = Inr cs'"
proof -
  have "largestIndexOf cs \<le> length cs - 1" by (rule largestIndexOf_bound)
  moreover have "0 < length cs" using assms by simp
  ultimately have "largestIndexOf cs < length cs" by linarith
  then show ?thesis
    unfolding splitLargest_def Let_def by simp
qed

lemma renumber_from_fields:
  "map words (map (\<lambda>(index, c). c\<lparr> chunkId := f index, title := g index \<rparr>) (enumerate n cs))
     = map words cs"
  "map wordCount (map (\<lambda>(index, c). c\<lparr> chunkId := f index, title := g index \<rparr>) (enumerate n cs))
     = map wordCount cs"
  "map startWordIndex (map (\<lambda>(index, c). c\<lparr> chunkId := f index, title := g index \<rparr>) (enumerate n cs))
     = map startWordIndex cs"
  "map endWordIndex (map (\<lambda>(index, c). c\<lparr> chunkId := f index, title := g index \<rparr>) (enumerate n cs))
     = map endWordIndex cs"
  by (induction cs arbitrary: n; simp)+

lemma renumber_fields:
  "map words (renumber cs) = map words cs"
  "map wordCount (renumber cs) = map wordCount cs"
  "map startWordIndex (renumber cs) = map startWordIndex cs"
  "map endWordIndex (renumber cs) = map endWordIndex cs"
  unfolding renumber_def by (rule renumber_from_fields)+

lemma length_renumber: "length (renumber cs) = length cs"
  by (simp add: renumber_def)

lemma chain_renumber_from:
  "chain s (map (\<lambda>(index, c). c\<lparr> chunkId := f index, title := g index \<rparr>) (enumerate n cs))
     = chain s cs"
  by (induction cs arbitrary: n s) simp_all

lemma renumber_chain: "chain s cs \<Longrightarrow> chain s (renumber cs)"
  unfolding renumber_def by (simp only: chain_renumber_from)

lemma renumber_allWords: "allWords (renumber cs) = allWords cs"
  by (simp add: allWords_def renumber_fields)

lemma renumber_wordTotal: "wordTotal (renumber cs) = wordTotal cs"
  by (simp add: wordTotal_def renumber_fields)

lemma mergeLoop_length:
  "2 \<le> k \<Longrightarrow> \<exists>cs'. mergeLoop cs k = Inr cs'
           \<and> int (length cs') = (if k < int (length cs) then k else int (length cs))"
proof (induction cs k rule: mergeLoop.induct)
  case (1 cs k)
  show ?case
  proof (cases "k < int (length cs)")
    case True
    with "1.prems" have "2 \<le> length cs" by linarith
    then obtain merged where merged: "mergeSmallest cs = Inr merged"
      using mergeSmallest_ok by blast
    then have len: "Suc (length merged) = length cs" by (rule mergeSmallest_length)
    from "1.IH" [OF True merged "1.prems"] obtain cs' where
      cs': "mergeLoop merged k = Inr cs'"
      "int (length cs') = (if k < int (length merged) then k else int (length merged))"
      by blast
    have "mergeLoop cs k = Inr cs'"
      using True merged cs'(1) by (simp add: mergeLoop.simps [of cs])
    moreover have "int (length cs') = k"
      using cs'(2) len True by (auto split: if_splits)
    ultimately show ?thesis using True by simp
  next
    case False
    then show ?thesis by (simp add: mergeLoop.simps [of cs])
  qed
qed

lemma mergeLoop_chain:
  "mergeLoop cs k = Inr cs' \<Longrightarrow> chain s cs \<Longrightarrow> chain s cs'"
proof (induction cs k rule: mergeLoop.induct)
  case (1 cs k)
  show ?case
  proof (cases "k < int (length cs)")
    case True
    with "1.prems"(1) obtain merged where merged: "mergeSmallest cs = Inr merged"
      and rest: "mergeLoop merged k = Inr cs'"
      by (auto simp: mergeLoop.simps [of cs] split: sum.splits)
    from "1.IH" [OF True merged rest mergeSmallest_chain [OF merged "1.prems"(2)]]
    show ?thesis .
  next
    case False
    with "1.prems" show ?thesis by (simp add: mergeLoop.simps [of cs])
  qed
qed

lemma mergeLoop_allWords:
  "mergeLoop cs k = Inr cs' \<Longrightarrow> allWords cs' = allWords cs"
proof (induction cs k rule: mergeLoop.induct)
  case (1 cs k)
  show ?case
  proof (cases "k < int (length cs)")
    case True
    with "1.prems"(1) obtain merged where merged: "mergeSmallest cs = Inr merged"
      and rest: "mergeLoop merged k = Inr cs'"
      by (auto simp: mergeLoop.simps [of cs] split: sum.splits)
    from "1.IH" [OF True merged rest] mergeSmallest_allWords [OF merged]
    show ?thesis by simp
  next
    case False
    with "1.prems" show ?thesis by (simp add: mergeLoop.simps [of cs])
  qed
qed

lemma splitLoop_length:
  "cs \<noteq> [] \<Longrightarrow> \<exists>cs'. splitLoop cs k = Inr cs'
           \<and> int (length cs') = (if int (length cs) < k then k else int (length cs))"
proof (induction cs k rule: splitLoop.induct)
  case (1 cs k)
  show ?case
  proof (cases "int (length cs) < k")
    case True
    obtain parts where parts: "splitLargest cs = Inr parts"
      using splitLargest_ok [OF "1.prems"] by blast
    then have len: "length parts = Suc (length cs)" by (rule splitLargest_length)
    then have "parts \<noteq> []" by auto
    from "1.IH" [OF True parts this] obtain cs' where
      cs': "splitLoop parts k = Inr cs'"
      "int (length cs') = (if int (length parts) < k then k else int (length parts))"
      by blast
    have "splitLoop cs k = Inr cs'"
      using True parts cs'(1) by (simp add: splitLoop.simps [of cs])
    moreover have "int (length cs') = k"
      using cs'(2) len True by (auto split: if_splits)
    ultimately show ?thesis using True by simp
  next
    case False
    then show ?thesis by (simp add: splitLoop.simps [of cs])
  qed
qed

lemma splitLoop_chain:
  "splitLoop cs k = Inr cs' \<Longrightarrow> chain s cs \<Longrightarrow> chain s cs'"
proof (induction cs k rule: splitLoop.induct)
  case (1 cs k)
  show ?case
  proof (cases "int (length cs) < k")
    case True
    with "1.prems"(1) obtain parts where parts: "splitLargest cs = Inr parts"
      and rest: "splitLoop parts k = Inr cs'"
      by (auto simp: splitLoop.simps [of cs] split: sum.splits)
    from "1.IH" [OF True parts rest splitLargest_chain [OF parts "1.prems"(2)]]
    show ?thesis .
  next
    case False
    with "1.prems" show ?thesis by (simp add: splitLoop.simps [of cs])
  qed
qed

lemma splitLoop_allWords:
  "splitLoop cs k = Inr cs' \<Longrightarrow> allWords cs' = allWords cs"
proof (induction cs k rule: splitLoop.induct)
  case (1 cs k)
  show ?case
  proof (cases "int (length cs) < k")
    case True
    with "1.prems"(1) obtain parts where parts: "splitLargest cs = Inr parts"
      and rest: "splitLoop parts k = Inr cs'"
      by (auto simp: splitLoop.simps [of cs] split: sum.splits)
    from "1.IH" [OF True parts rest] splitLargest_allWords [OF parts]
    show ?thesis by simp
  next
    case False
    with "1.prems" show ?thesis by (simp add: splitLoop.simps [of cs])
  qed
qed

lemma performChunkRefinement_result:
  assumes "cs \<noteq> []" and "2 \<le> k"
  shows "\<exists>r. performChunkRefinement cs k tw tol = Inr r \<and> int (length r) = k
            \<and> (chain s cs \<longrightarrow> chain s r) \<and> allWords r = allWords cs"
proof -
  define p where "p = refinementPass (tw - tol) (tw + tol) cs []"
  have p_ne: "p \<noteq> []"
    unfolding p_def by (rule refinementPass_nonempty [OF assms(1)])
  obtain m where m: "mergeLoop p k = Inr m"
    and m_len: "int (length m) = (if k < int (length p) then k else int (length p))"
    using mergeLoop_length [OF assms(2)] by blast
  have m_ne: "m \<noteq> []"
    using m_len p_ne assms(2) by (auto split: if_splits)
  obtain q where q: "splitLoop m k = Inr q"
    and q_len: "int (length q) = (if int (length m) < k then k else int (length m))"
    using splitLoop_length [OF m_ne] by blast
  have res: "performChunkRefinement cs k tw tol = Inr (renumber q)"
    unfolding performChunkRefinement_def Let_def p_def [symmetric] by (simp add: m q)
  have len: "int (length (renumber q)) = k"
    using q_len m_len by (simp add: length_renumber split: if_splits)
  have ch: "chain s (renumber q)" if "chain s cs"
  proof -
    have "chain s p"
      unfolding p_def using that by (intro refinementPass_chain) simp
    then have "chain s m" by (rule mergeLoop_chain [OF m])
    then have "chain s q" by (rule splitLoop_chain [OF q])
    then show ?thesis by (rule renumber_chain)
  qed
  have "allWords (renumber q) = allWords cs"
    using mergeLoop_allWords [OF m] splitLoop_allWords [OF q]
    by (simp add: renumber_allWords p_def refinementPass_allWords)
  with res len ch show ?thesis by blast
qed

lemma refineChunksRecursively_result:
  "cs \<noteq> [] \<Longrightarrow> 2 \<le> k \<Longrightarrow>
   \<exists>r. refineChunksRecursively cs k tw tol it mx = Inr r
       \<and> (int (length cs) = k \<longrightarrow> int (length r) = k)
       \<and> (chain s cs \<longrightarrow> chain s r) \<and> allWords r = allWords cs"
proof (induction cs k tw tol it mx rule: refineChunksRecursively.induct)
  case (1 cs k tw tol it mx)
  show ?case
  proof (cases "mx \<le> it \<or> \<not> needsRefinement cs k tw tol")
    case True
    then show ?thesis
      by (auto simp: refineChunksRecursively.simps [of cs])
  next
    case False
    obtain r where r: "performChunkRefinement cs k tw tol = Inr r"
      and r_len: "int (length r) = k"
      and r_chain: "chain s cs \<longrightarrow> chain s r"
      and r_words: "allWords r = allWords cs"
      using performChunkRefinement_result [OF "1.prems"] by blast
    have r_ne: "r \<noteq> []" using r_len "1.prems"(2) by auto
    from False have a: "\<not> mx \<le> it" and b: "\<not> \<not> needsRefinement cs k tw tol" by auto
    from "1.IH" [OF a b r r_ne "1.prems"(2)] obtain r' where
      r': "refineChunksRecursively r k tw tol (it + 1) mx = Inr r'"
      "int (length r) = k \<longrightarrow> int (length r') = k"
      "chain s r \<longrightarrow> chain s r'" "allWords r' = allWords r"
      by blast
    have "refineChunksRecursively cs k tw tol it mx = Inr r'"
      using False r r'(1) by (simp add: refineChunksRecursively.simps [of cs])
    then show ?thesis
      using r' r_len r_chain r_words by auto
  qed
qed

lemma regular_slices:
  fixes ws :: "string list" and w :: nat
  defines "mk \<equiv> (\<lambda>i. \<lparr> chunkId = chunkIdOf (i + 1), title = chunkTitleOf (i + 1),
                          words = slice ws (i * w) ((i + 1) * w),
                          wordCount = length (slice ws (i * w) ((i + 1) * w)),
                          startWordIndex = i * w, endWordIndex = (i + 1) * w \<rparr>)"
  assumes "m * w \<le> length ws"
  shows "chain 0 (map mk [0 ..< m]) \<and> allWords (map mk [0 ..< m]) = take (m * w) ws
         \<and> wordTotal (map mk [0 ..< m]) = m * w"
  using assms(2)
proof (induction m)
  case 0
  then show ?case by simp
next
  case (Suc m)
  then have le: "m * w + w \<le> length ws" by simp
  then have IH: "chain 0 (map mk [0 ..< m])" "allWords (map mk [0 ..< m]) = take (m * w) ws"
    "wordTotal (map mk [0 ..< m]) = m * w"
    using Suc.IH by simp_all
  have len: "length (slice ws (m * w) ((m + 1) * w)) = w"
    using le by (simp add: slice_def)
  have one: "chain (m * w) [mk m]"
    using len by (simp add: mk_def)
  have "chain 0 (map mk [0 ..< m] @ [mk m])"
    using IH(1) IH(3) one by (simp only: chain_append) simp
  moreover have "allWords (map mk [0 ..< m] @ [mk m]) = take (m * w + w) ws"
    using IH(2) by (simp add: mk_def slice_def take_add)
  moreover have "wordTotal (map mk [0 ..< m] @ [mk m]) = m * w + w"
    using IH(3) len by (simp add: mk_def)
  ultimately show ?case by (simp add: add.commute)
qed

lemma initialChunkSplit_result:
  assumes "1 \<le> k"
  shows "chain 0 (initialChunkSplit ft k tw)
         \<and> allWords (initialChunkSplit ft k tw) = splitWords (text_f ft)
         \<and> int (length (initialChunkSplit ft k tw)) = k"
proof -
  define ws where "ws = splitWords (text_f ft)"
  define w where "w = nat (int (length ws) div k)"
  define n where "n = nat k - 1"
  define mk where "mk = (\<lambda>i. \<lparr> chunkId = chunkIdOf (i + 1), title = chunkTitleOf (i + 1),
                          words = slice ws (i * w) ((i + 1) * w),
                          wordCount = length (slice ws (i * w) ((i + 1) * w)),
                          startWordIndex = i * w, endWordIndex = (i + 1) * w \<rparr>)"
  define lastChunk where "lastChunk = \<lparr> chunkId = chunkIdOf (n + 1), title = chunkTitleOf (n + 1),
                          words = slice ws (n * w) (length ws),
                          wordCount = length (slice ws (n * w) (length ws)),
                          startWordIndex = n * w, endWordIndex = length ws \<rparr>"
  have k: "nat k = Suc n" "int n = k - 1"
    using assms by (simp_all add: n_def)
  have w_nat: "w = length ws div nat k"
    using assms unfolding w_def by (simp add: nat_div_distrib)
  have "nat k * w \<le> length ws"
    unfolding w_nat by simp
  then have nw: "n * w \<le> length ws"
    using k(1) by simp
  have shape: "initialChunkSplit ft k tw = map mk [0 ..< n] @ [lastChunk]"
    unfolding initialChunkSplit_def Let_def ws_def [symmetric] w_def [symmetric] k(1)
    using k(2) by (simp add: mk_def lastChunk_def)
  have reg: "chain 0 (map mk [0 ..< n])" "allWords (map mk [0 ..< n]) = take (n * w) ws"
    "wordTotal (map mk [0 ..< n]) = n * w"
    using regular_slices [OF nw] unfolding mk_def by simp_all
  have last_words: "words lastChunk = drop (n * w) ws"
    by (simp add: lastChunk_def slice_def)
  have "chain (n * w) [lastChunk]"
    using nw by (simp add: lastChunk_def slice_def)
  then have "chain 0 (map mk [0 ..< n] @ [lastChunk])"
    using reg(1) reg(3) by (simp only: chain_append) simp
  moreover have "allWords (map mk [0 ..< n] @ [lastChunk]) = ws"
    using reg(2) last_words by simp
  moreover have "int (length (map mk [0 ..< n] @ [lastChunk])) = k"
    using k(2) by simp
  ultimately show ?thesis
    unfolding shape ws_def by simp
qed


lemma chain_lower: "chain s cs \<Longrightarrow> c \<in> set cs \<Longrightarrow> s \<le> startWordIndex c"
proof (induction cs arbitrary: s)
  case Nil
  then show ?case by simp
next
  case (Cons d ds)
  show ?case
  proof (cases "c = d")
    case True
    with Cons.prems show ?thesis by simp
  next
    case False
    with Cons.prems have "c \<in> set ds" and "chain (endWordIndex d) ds"
      and "s \<le> endWordIndex d" by auto
    with Cons.IH [of "endWordIndex d"] show ?thesis by linarith
  qed
qed

lemma chain_sorted: "chain s cs \<Longrightarrow> sorted (map startWordIndex cs)"
proof (induction cs arbitrary: s)
  case Nil
  then show ?case by simp
next
  case (Cons d ds)
  then have tl: "chain (endWordIndex d) ds" and le: "startWordIndex d \<le> endWordIndex d"
    by auto
  have "startWordIndex d \<le> startWordIndex c" if "c \<in> set ds" for c
    using chain_lower [OF tl that] le by linarith
  with Cons.IH [OF tl] show ?case by auto
qed

lemma chain_contiguousFrom:
  "chain s cs \<Longrightarrow> contiguousFrom s (wordRanges cs) (s + wordTotal cs)"
proof (induction cs arbitrary: s)
  case Nil
  then show ?case by (simp add: wordRanges_def)
next
  case (Cons d ds)
  then have tl: "chain (endWordIndex d) ds" and d: "startWordIndex d = s"
    "endWordIndex d = s + wordCount d"
    by auto
  from Cons.IH [OF tl] have "contiguousFrom (endWordIndex d) (wordRanges ds)
      (s + wordTotal (d # ds))"
    by (simp add: d add.assoc)
  then show ?case
    using d by (simp add: wordRanges_def)
qed

lemma chain_rangesPartition:
  assumes "chain 0 cs"
  shows "rangesPartition cs (length (allWords cs))"
proof -
  have "map fst (wordRanges cs) = map startWordIndex cs"
    by (simp add: wordRanges_def comp_def)
  then have "sort_key fst (wordRanges cs) = wordRanges cs"
    using chain_sorted [OF assms] by (simp add: sort_key_id_if_sorted)
  then show ?thesis
    using chain_contiguousFrom [OF assms] chain_length_allWords [OF assms]
    by (simp add: rangesPartition_def)
qed

lemma combined_text_from:
  "text_f (fold (\<lambda>chapter acc.
             let chapterText = textContent_c chapter;
                 chapterHtml = htmlContent_c chapter;
                 currentPosition = totalWords acc
             in \<lparr> text_f = text_f acc @ chapterText @ doubleNewline,
                  html_f = html_f acc @ chapterHtml @ doubleNewline,
                  totalWords = currentPosition + countWordsApp chapterText,
                  chapterMarkers = chapterMarkers acc @
                    [\<lparr> title_m = title_c chapter,
                       startPosition = currentPosition,
                       endPosition = currentPosition + countWordsApp chapterText,
                       textContent_m = chapterText,
                       htmlContent_m = chapterHtml \<rparr>] \<rparr>)
          cont start)
   = text_f start @ concat (map (\<lambda>c. textContent_c c @ doubleNewline) cont)"
  by (induction cont arbitrary: start) (simp_all add: Let_def)

lemma combined_text:
  "text_f (combineContentWithMarkers (fullContentOf chapters)) = concatenatedTexts chapters"
  unfolding combineContentWithMarkers_def combined_text_from
  by (simp add: fullContentOf_def concatenatedTexts_def comp_def)

lemma workingPartition_result:
  assumes "2 \<le> chunkCount"
  shows "\<exists>chunks. workingPartition chapters chunkCount = Inr chunks
           \<and> chain 0 chunks \<and> allWords chunks = corpusWords chapters
           \<and> int (length chunks) = chunkCount"
proof -
  define ft where "ft = combineContentWithMarkers (fullContentOf chapters)"
  define tw where "tw = targetWordsPerChunkOf chapters chunkCount"
  define tol where "tol = toleranceOf chapters chunkCount"
  define cs0 where "cs0 = initialChunkSplit ft chunkCount tw"
  have one: "1 \<le> chunkCount" using assms by simp
  have init: "chain 0 cs0" "allWords cs0 = splitWords (text_f ft)" "int (length cs0) = chunkCount"
    using initialChunkSplit_result [OF one, of ft tw] unfolding cs0_def by simp_all
  have ne: "cs0 \<noteq> []" using init(3) assms by auto
  from refineChunksRecursively_result [OF ne assms, of tw tol 0 5 0] init
  obtain r where "refineChunksRecursively cs0 chunkCount tw tol 0 5 = Inr r"
    "int (length r) = chunkCount" "chain 0 r" "allWords r = splitWords (text_f ft)"
    by auto
  moreover have "corpusWords chapters = splitWords (text_f ft)"
    unfolding corpusWords_def ft_def combined_text ..
  ultimately show ?thesis
    unfolding workingPartition_def refinedPartition_def Let_def
      ft_def [symmetric] tw_def [symmetric] tol_def [symmetric] cs0_def [symmetric]
    by simp
qed

lemma splitIntoChunks_formats:
  "splitIntoChunks chapters chunkCount =
     (case workingPartition chapters chunkCount of
        Inl e \<Rightarrow> Inl e
      | Inr chunks \<Rightarrow> Inr (formatFinalChunks chunks (fullContentOf chapters)))"
  by (simp add: splitIntoChunks_def workingPartition_def createIntelligentChunks_def Let_def)

lemma formatFinalChunks_wordCount:
  "map wordCount_fc (formatFinalChunks chunks cont) = map wordCount chunks"
  by (simp add: formatFinalChunks_def Let_def comp_def)

lemma refineChunksRecursively_rounds:
  "\<exists>n \<le> mx - it. refineChunksRecursively cs k tw tol it mx = refinementRounds n cs k tw tol"
proof (induction cs k tw tol it mx rule: refineChunksRecursively.induct)
  case (1 cs k tw tol it mx)
  show ?case
  proof (cases "mx \<le> it \<or> \<not> needsRefinement cs k tw tol")
    case True
    then have "refineChunksRecursively cs k tw tol it mx = refinementRounds 0 cs k tw tol"
      by (auto simp: refineChunksRecursively.simps [of cs])
    then show ?thesis by blast
  next
    case False
    then have a: "\<not> mx \<le> it" and b: "\<not> \<not> needsRefinement cs k tw tol" by auto
    show ?thesis
    proof (cases "performChunkRefinement cs k tw tol")
      case (Inl e)
      then have "refineChunksRecursively cs k tw tol it mx = refinementRounds 1 cs k tw tol"
        using False by (simp add: refineChunksRecursively.simps [of cs])
      moreover have "1 \<le> mx - it" using a by simp
      ultimately show ?thesis by blast
    next
      case (Inr r)
      from "1.IH" [OF a b Inr] obtain n where n: "n \<le> mx - (it + 1)"
        "refineChunksRecursively r k tw tol (it + 1) mx = refinementRounds n r k tw tol"
        by blast
      have "refineChunksRecursively cs k tw tol it mx = refinementRounds (Suc n) cs k tw tol"
        using False Inr n(2) by (simp add: refineChunksRecursively.simps [of cs])
      moreover have "Suc n \<le> mx - it" using n(1) a by simp
      ultimately show ?thesis by blast
    qed
  qed
qed

section \<open>The first loop of an iteration\<close>


declare refinementPass.simps(2) [simp del]




lemma findOptimalSplitPoint_near:
  "t - min 50 (length ws div 10) \<le> findOptimalSplitPoint ws t
   \<and> findOptimalSplitPoint ws t \<le> t + min 50 (length ws div 10)"
proof -
  define r where "r = min 50 (length ws div 10)"
  define step where "step = (\<lambda>i (bestSplit :: nat, bestScore).
                      if calculateBreakPointScore ws i > bestScore
                      then (i, calculateBreakPointScore ws i) else (bestSplit, bestScore))"
  have inv: "t - r \<le> fst (fold step is st) \<and> fst (fold step is st) \<le> t + r"
    if "t - r \<le> fst st \<and> fst st \<le> t + r" "\<forall>i \<in> set is. t - r \<le> i \<and> i \<le> t + r" for "is" st
    using that
  proof (induction "is" arbitrary: st)
    case Nil
    then show ?case by simp
  next
    case (Cons i "is")
    have "t - r \<le> fst (step i st) \<and> fst (step i st) \<le> t + r"
      using Cons.prems by (cases st) (simp add: step_def)
    with Cons show ?case by simp
  qed
  have "t - r \<le> fst (fold step [max 1 (t - r) ..< Suc (min (length ws - 1) (t + r))]
                        (t, calculateBreakPointScore ws t))
        \<and> fst (fold step [max 1 (t - r) ..< Suc (min (length ws - 1) (t + r))]
                        (t, calculateBreakPointScore ws t)) \<le> t + r"
  proof (rule inv)
    show "t - r \<le> fst (t, calculateBreakPointScore ws t)
          \<and> fst (t, calculateBreakPointScore ws t) \<le> t + r"
      by simp
    show "\<forall>i \<in> set [max 1 (t - r) ..< Suc (min (length ws - 1) (t + r))]. t - r \<le> i \<and> i \<le> t + r"
    proof
      fix i
      assume "i \<in> set [max 1 (t - r) ..< Suc (min (length ws - 1) (t + r))]"
      then have "max 1 (t - r) \<le> i" "i < Suc (min (length ws - 1) (t + r))"
        by (simp_all only: set_upt atLeastLessThan_iff)
      then have "t - r \<le> i" "i \<le> t + r"
        by (simp_all only: max.bounded_iff less_Suc_eq_le min.bounded_iff)
      then show "t - r \<le> i \<and> i \<le> t + r" by simp
    qed
  qed
  then show ?thesis
    unfolding findOptimalSplitPoint_def Let_def r_def step_def .
qed








section \<open>The sizes of the chunks in a run\<close>

subsection \<open>The corpus holds every counted word\<close>















subsection \<open>The split point\<close>

lemma findOptimalSplitPoint_optimal:
  "optimalSplit ws t (findOptimalSplitPoint ws t)"
proof -
  define r where "r = min 50 (length ws div 10)"
  define lo where "lo = max 1 (t - r)"
  define hi where "hi = min (length ws - 1) (t + r)"
  define sc where "sc = calculateBreakPointScore ws"
  define step where "step = (\<lambda>i (bestSplit :: nat, bestScore).
                      if sc i > bestScore then (i, sc i) else (bestSplit, bestScore))"
  define good where "good = (\<lambda>seen (st :: nat \<times> nat).
      snd st = sc (fst st) \<and> sc t \<le> snd st \<and> (\<forall>i \<in> set seen. sc i \<le> snd st)
      \<and> (fst st = t \<or> (fst st \<in> set seen \<and> sc t < snd st
                         \<and> (\<forall>i \<in> set seen. i < fst st \<longrightarrow> sc i < snd st))))"
  have inv: "good (seen @ is) (fold step is st)"
    if "good seen st" and "sorted_wrt (<) (seen @ is)" for seen "is" st
    using that
  proof (induction "is" arbitrary: seen st)
    case Nil
    then show ?case by simp
  next
    case (Cons i "is")
    obtain b s where st: "st = (b, s)" by (cases st)
    have before: "\<forall>j \<in> set seen. j < i"
      using Cons.prems(2) by (simp add: sorted_wrt_append)
    have "good (seen @ [i]) (step i st)"
    proof (cases "s < sc i")
      case True
      then have "step i st = (i, sc i)" by (simp add: step_def st)
      moreover have "good (seen @ [i]) (i, sc i)"
        using Cons.prems(1) True unfolding good_def st
        by (auto intro: order.trans less_imp_le le_less_trans)
      ultimately show ?thesis by simp
    next
      case False
      then have "step i st = (b, s)" by (simp add: step_def st)
      moreover have "good (seen @ [i]) (b, s)"
        using Cons.prems(1) False before unfolding good_def st
        by (auto simp: not_less dest: less_asym)
      ultimately show ?thesis by simp
    qed
    moreover have "sorted_wrt (<) ((seen @ [i]) @ is)"
      using Cons.prems(2) by simp
    ultimately have "good ((seen @ [i]) @ is) (fold step is (step i st))"
      by (rule Cons.IH)
    then show ?case by simp
  qed
  have "good [] (t, sc t)" by (simp add: good_def)
  moreover have "sorted_wrt (<) ([] @ [lo ..< Suc hi])"
    by (simp only: append_Nil sorted_wrt_upt)
  ultimately have "good ([] @ [lo ..< Suc hi]) (fold step [lo ..< Suc hi] (t, sc t))"
    by (rule inv)
  then have g: "good [lo ..< Suc hi] (fold step [lo ..< Suc hi] (t, sc t))" by simp
  have res: "findOptimalSplitPoint ws t = fst (fold step [lo ..< Suc hi] (t, sc t))"
    unfolding findOptimalSplitPoint_def Let_def step_def sc_def lo_def hi_def r_def ..
  define sp where "sp = findOptimalSplitPoint ws t"
  have set: "set [lo ..< Suc hi] = {lo .. hi}" by auto
  from g have a: "sc t \<le> sc sp" and b: "\<forall>i \<in> {lo .. hi}. sc i \<le> sc sp"
    and c: "sp = t \<or> (lo \<le> sp \<and> sp \<le> hi \<and> sc t < sc sp
                        \<and> (\<forall>i \<in> {lo .. hi}. i < sp \<longrightarrow> sc i < sc sp))"
    unfolding good_def res [symmetric] sp_def [symmetric] set by auto
  from c have c': "sp = t \<or> (lo \<le> sp \<and> sp \<le> hi \<and> sc t < sc sp
                        \<and> (\<forall>i \<in> {lo ..< sp}. sc i < sc sp))"
    by auto
  have near: "t - r \<le> sp \<and> sp \<le> t + r"
    using findOptimalSplitPoint_near [of t ws] unfolding sp_def r_def by simp
  show ?thesis
    unfolding optimalSplit_def Let_def r_def [symmetric] lo_def [symmetric] hi_def [symmetric]
      sc_def [symmetric] sp_def [symmetric]
    using near a b c' by blast
qed

lemma optimalSplit_unique:
  assumes "optimalSplit ws t sp" and "optimalSplit ws t sp'"
  shows "sp = sp'"
proof -
  define r where "r = min 50 (length ws div 10)"
  define lo where "lo = max 1 (t - r)"
  define hi where "hi = min (length ws - 1) (t + r)"
  define sc where "sc = calculateBreakPointScore ws"
  have a: "\<forall>i \<in> {lo .. hi}. sc i \<le> sc sp"
    "sp = t \<or> (lo \<le> sp \<and> sp \<le> hi \<and> sc t < sc sp \<and> (\<forall>i \<in> {lo ..< sp}. sc i < sc sp))"
    using assms(1)
    unfolding optimalSplit_def Let_def r_def [symmetric] lo_def [symmetric] hi_def [symmetric]
      sc_def [symmetric] by blast+
  have b: "\<forall>i \<in> {lo .. hi}. sc i \<le> sc sp'"
    "sp' = t \<or> (lo \<le> sp' \<and> sp' \<le> hi \<and> sc t < sc sp' \<and> (\<forall>i \<in> {lo ..< sp'}. sc i < sc sp'))"
    using assms(2)
    unfolding optimalSplit_def Let_def r_def [symmetric] lo_def [symmetric] hi_def [symmetric]
      sc_def [symmetric] by blast+
  show ?thesis
  proof (cases "sp = t")
    case True
    show ?thesis
    proof (cases "sp' = t")
      case True
      with \<open>sp = t\<close> show ?thesis by simp
    next
      case False
      with b(2) have sp': "lo \<le> sp'" "sp' \<le> hi" "sc t < sc sp'" by simp_all
      have "sc sp' \<le> sc sp" using a(1) sp'(1,2) by simp
      with True sp'(3) show ?thesis by simp
    qed
  next
    case False
    with a(2) have sp: "lo \<le> sp" "sp \<le> hi" "sc t < sc sp" "\<forall>i \<in> {lo ..< sp}. sc i < sc sp"
      by simp_all
    show ?thesis
    proof (cases "sp' = t")
      case True
      have "sc sp \<le> sc sp'" using b(1) sp(1,2) by simp
      with True sp(3) show ?thesis by simp
    next
      case False
      with b(2) have sp': "lo \<le> sp'" "sp' \<le> hi" "\<forall>i \<in> {lo ..< sp'}. sc i < sc sp'"
        by simp_all
      have "\<not> sp < sp'"
      proof
        assume "sp < sp'"
        with sp(1) sp'(3) have "sc sp < sc sp'" by simp
        moreover have "sc sp' \<le> sc sp" using a(1) sp'(1,2) by simp
        ultimately show False by simp
      qed
      moreover have "\<not> sp' < sp"
      proof
        assume "sp' < sp"
        with sp'(1) sp(4) have "sc sp' < sc sp" by simp
        moreover have "sc sp \<le> sc sp'" using b(1) sp(1,2) by simp
        ultimately show False by simp
      qed
      ultimately show ?thesis by simp
    qed
  qed
qed

lemma optimalSplit_iff: "optimalSplit ws t sp \<longleftrightarrow> sp = findOptimalSplitPoint ws t"
  using optimalSplit_unique [OF findOptimalSplitPoint_optimal] findOptimalSplitPoint_optimal
  by blast


subsection \<open>No chunk falls below a fifth of the upper bound\<close>




















subsection \<open>The inputs of the iterations\<close>



lemma refineChunksRecursively_inputs:
  "refineChunksRecursively cs k tw tol it mx
     = refinementRounds (length (refinementInputs cs k tw tol it mx)) cs k tw tol"
proof (induction cs k tw tol it mx rule: refineChunksRecursively.induct)
  case (1 cs k tw tol it mx)
  show ?case
  proof (cases "mx \<le> it \<or> \<not> needsRefinement cs k tw tol")
    case True
    then show ?thesis
      by (auto simp: refineChunksRecursively.simps [of cs] refinementInputs.simps [of cs])
  next
    case False
    then have a: "\<not> mx \<le> it" and b: "\<not> \<not> needsRefinement cs k tw tol" by auto
    show ?thesis
    proof (cases "performChunkRefinement cs k tw tol")
      case (Inl e)
      then show ?thesis
        using False by (simp add: refineChunksRecursively.simps [of cs] refinementInputs.simps [of cs])
    next
      case (Inr r)
      from "1.IH" [OF a b Inr] show ?thesis
        using False Inr
        by (simp add: refineChunksRecursively.simps [of cs] refinementInputs.simps [of cs])
    qed
  qed
qed

lemma workingPartition_inputs:
  "workingPartition chapters chunkCount
     = refinementRounds (length (iterationInputs chapters chunkCount))
         (initialChunkSplit (combineContentWithMarkers (fullContentOf chapters)) chunkCount
            (targetWordsPerChunkOf chapters chunkCount))
         chunkCount (targetWordsPerChunkOf chapters chunkCount) (toleranceOf chapters chunkCount)"
  unfolding workingPartition_def refinedPartition_def iterationInputs_def Let_def
  by (rule refineChunksRecursively_inputs)

section \<open>Facts about chapter extraction\<close>

lemma navigationChapter_kept:
  assumes "navigationChapter svc manifest nav item = Inr (Some ch)"
  shows "keptChapter ch"
  using assms unfolding navigationChapter_def Let_def keptChapter_def
  by (auto split: sum.splits if_splits)

lemma navigationStep_kept:
  assumes "\<forall>ch \<in> set (snd st). keptChapter ch"
  shows "\<forall>ch \<in> set (snd (navigationStep svc manifest nav st)). keptChapter ch"
proof (cases st)
  case (Pair processedFiles chapters)
  show ?thesis
    using assms navigationChapter_kept [of svc manifest nav]
    unfolding Pair navigationStep_def Let_def
    by (auto split: option.splits sum.splits)
qed

lemma navigationFold_kept:
  assumes "\<forall>ch \<in> set (snd st). keptChapter ch"
  shows "\<forall>ch \<in> set (snd (fold (navigationStep svc manifest) navigation st)). keptChapter ch"
  using assms
proof (induction navigation arbitrary: st)
  case Nil
  then show ?case by simp
next
  case (Cons nav navigation)
  show ?case
    by (simp add: Cons.IH [OF navigationStep_kept [OF Cons.prems]])
qed

lemma spineStep_keeps: "set chapters \<subseteq> set (spineStep svc manifest i sp chapters)"
  unfolding spineStep_def Let_def
  by (auto split: option.splits sum.splits)

lemma spineLoop_keeps: "set chapters \<subseteq> set (spineLoop svc manifest i sps chapters)"
proof (induction sps arbitrary: i chapters)
  case Nil
  then show ?case by simp
next
  case (Cons sp sps)
  have "set chapters \<subseteq> set (spineStep svc manifest i sp chapters)"
    by (rule spineStep_keeps)
  also have "\<dots> \<subseteq> set (spineLoop svc manifest (i + 1) sps (spineStep svc manifest i sp chapters))"
    by (rule Cons.IH)
  finally show ?case by simp
qed

lemma spineLoop_has:
  assumes "j < length sps"
    and "map_of manifest (idref (sps ! j)) = Some item"
    and "files svc (href item)"
    and "extractHTMLContent svc (href item) = Inr html"
    and "extractTextContent svc html = Inr plain"
  shows "\<exists>ch \<in> set (spineLoop svc manifest i sps chapters).
           spineOrder ch = i + j \<and> id_ch ch = ''spine-'' @ showNat (i + j)
           \<and> htmlContent_ch ch = html \<and> textContent_ch ch = plain
           \<and> wordCount_ch ch = countWords plain"
  using assms(1,2)
proof (induction sps arbitrary: i j chapters)
  case Nil
  then show ?case by simp
next
  case (Cons sp sps)
  show ?case
  proof (cases j)
    case 0
    with Cons.prems have sp: "map_of manifest (idref sp) = Some item" by simp
    define ch where "ch = \<lparr> id_ch = ''spine-'' @ showNat i,
                               title_ch = ''Chapter '' @ showNat (i + 1) @ '' (''
                                  @ afterLastSlash (href item) @ '')'',
                               htmlContent_ch = html,
                               textContent_ch = plain,
                               wordCount_ch = countWords plain,
                               spineOrder = i \<rparr>"
    have "spineStep svc manifest i sp chapters = chapters @ [ch]"
      unfolding spineStep_def Let_def ch_def by (simp add: sp assms(3,4,5))
    then have "ch \<in> set (spineStep svc manifest i sp chapters)" by simp
    then have "ch \<in> set (spineLoop svc manifest i (sp # sps) chapters)"
      using spineLoop_keeps [of "spineStep svc manifest i sp chapters" svc manifest "i + 1" sps]
      by auto
    moreover have "spineOrder ch = i + j \<and> id_ch ch = ''spine-'' @ showNat (i + j)
           \<and> htmlContent_ch ch = html \<and> textContent_ch ch = plain
           \<and> wordCount_ch ch = countWords plain"
      by (simp add: ch_def 0)
    ultimately show ?thesis by blast
  next
    case (Suc j')
    with Cons.prems have "j' < length sps" "map_of manifest (idref (sps ! j')) = Some item"
      by simp_all
    from Cons.IH [OF this, of "i + 1" "spineStep svc manifest i sp chapters"]
    show ?thesis by (simp add: Suc)
  qed
qed

lemma spineStep_counts:
  assumes "\<forall>ch \<in> set chapters. wordCount_ch ch = countWords (textContent_ch ch)"
  shows "\<forall>ch \<in> set (spineStep svc manifest i sp chapters).
           wordCount_ch ch = countWords (textContent_ch ch)"
  using assms unfolding spineStep_def Let_def
  by (auto split: option.splits sum.splits)

lemma spineLoop_counts:
  "\<forall>ch \<in> set chapters. wordCount_ch ch = countWords (textContent_ch ch) \<Longrightarrow>
   \<forall>ch \<in> set (spineLoop svc manifest i sps chapters).
     wordCount_ch ch = countWords (textContent_ch ch)"
proof (induction sps arbitrary: i chapters)
  case Nil
  then show ?case by simp
next
  case (Cons sp sps)
  from Cons.IH [OF spineStep_counts [OF Cons.prems]] show ?case by simp
qed

lemma extractChapters_counts:
  "\<forall>ch \<in> set (extractChapters svc manifest spine navigation).
     wordCount_ch ch = countWords (textContent_ch ch)"
proof -
  have sp: "\<forall>ch \<in> set (extractChaptersFromSpine svc manifest spine []).
     wordCount_ch ch = countWords (textContent_ch ch)"
    unfolding extractChaptersFromSpine_def by (rule spineLoop_counts) simp
  have "\<forall>ch \<in> set (snd (fold (navigationStep svc manifest) nav ([], []))). keptChapter ch" for nav
    by (rule navigationFold_kept) simp
  then have nv: "\<forall>ch \<in> set (extractChaptersFromNavigation svc manifest nav []).
     wordCount_ch ch = countWords (textContent_ch ch)" for nav
    unfolding extractChaptersFromNavigation_def keptChapter_def by blast
  show ?thesis
    unfolding extractChapters_def using sp nv by (simp split: option.splits)
qed

section \<open>Break-point scoring\<close>

text \<open>
  Claim C7. For every word sequence and every index, the break-point score is the sum of
  exactly the bonuses that apply: 100 when the preceding word ends in one of \<^verbatim>\<open>. ! ?\<close>,
  80 when either adjacent word contains a double line break, 60 when the preceding word
  ends in one of \<^verbatim>\<open>. ! ? ; :\<close>, 40 when the following word begins with an uppercase
  letter \<^verbatim>\<open>A\<close> to \<^verbatim>\<open>Z\<close>, 90 when either adjacent word contains \<^verbatim>\<open>chapter\<close> ignoring case,
  30 when the following word starts, ignoring case, with one of the six transition words;
  the score is 0 at index 0 and at or past the length of the sequence. The rules are
  independent, so several can apply at one boundary.
\<close>

theorem calculateBreakPointScore_additive:
  "calculateBreakPointScore ws i = breakPointScoreSpec ws i"
  unfolding calculateBreakPointScore_def breakPointScoreSpec_def Let_def bonus_def
    matchesAtEnd_endsInOneOf includes_sublist firstUnit_beginsWithUppercase
    some_transitionWord containsIgnoringCase_def
  by simp

theorem calculateBreakPointScore_additive_witness:
  "calculateBreakPointScore [''End.'', ''Chapter'', ''Two'', ''begins'', ''now''] 1 = 100 + 60 + 40 + 90
   \<and> breakPointScoreSpec [''End.'', ''Chapter'', ''Two'', ''begins'', ''now''] 1 = 290
   \<and> calculateBreakPointScore [''End.'', ''Chapter'', ''Two'', ''begins'', ''now''] 0 = 0
   \<and> calculateBreakPointScore [''End.'', ''Chapter'', ''Two'', ''begins'', ''now''] 5 = 0"
proof -
  have spec: "breakPointScoreSpec [''End.'', ''Chapter'', ''Two'', ''begins'', ''now''] 1 = 290"
    by code_simp
  have zero: "breakPointScoreSpec [''End.'', ''Chapter'', ''Two'', ''begins'', ''now''] 0 = 0"
    by (simp add: breakPointScoreSpec_def)
  have five: "breakPointScoreSpec [''End.'', ''Chapter'', ''Two'', ''begins'', ''now''] 5 = 0"
    by (simp add: breakPointScoreSpec_def)
  show ?thesis
    using spec zero five
      calculateBreakPointScore_additive [of "[''End.'', ''Chapter'', ''Two'', ''begins'', ''now'']"]
    by simp
qed

section \<open>The partition\<close>

text \<open>
  Claim C1. For every chapter list and every chunk count of at least 2, partitioning returns,
  whether the refinement converged or used up its five rounds, and the half-open word-index
  ranges of the chunks it returns, sorted by start, are contiguous from 0 to the number of
  words of the corpus: each range starts where the previous one ends, the first at 0, the
  last ends at the total.
\<close>

theorem partition_ranges_contiguous:
  assumes "2 \<le> chunkCount"
  shows "\<exists>chunks. workingPartition chapters chunkCount = Inr chunks
           \<and> rangesPartition chunks (length (corpusWords chapters))"
proof -
  from workingPartition_result [OF assms] obtain chunks where
    "workingPartition chapters chunkCount = Inr chunks" "chain 0 chunks"
    "allWords chunks = corpusWords chapters"
    by blast
  then show ?thesis
    using chain_rangesPartition [of chunks] by auto
qed

theorem partition_ranges_contiguous_witness:
  "(\<exists>chunks. workingPartition demoChapters 2 = Inr chunks
       \<and> rangesPartition chunks (length (corpusWords demoChapters)))
   \<and> map_sum id wordRanges (workingPartition demoChapters 2) = Inr [(0, 5), (5, 7)]
   \<and> length (corpusWords demoChapters) = 7"
proof -
  have a: "map_sum id wordRanges (workingPartition demoChapters 2) = Inr [(0, 5), (5, 7)]"
    by code_simp
  have b: "length (corpusWords demoChapters) = 7"
    by code_simp
  show ?thesis
    using a b partition_ranges_contiguous [of 2 demoChapters] by simp
qed

text \<open>
  Claim C2. For every chapter list and every chunk count of at least 2 (so also for every
  count between 2 and the number of words), the word counts of the chunks that partitioning
  returns add up to the number of words of the corpus: the length of the sequence obtained
  by splitting the combined chapter texts at whitespace and dropping the empty pieces.
\<close>

theorem partition_conserves_words:
  assumes "2 \<le> chunkCount"
  shows "\<exists>final. splitIntoChunks chapters chunkCount = Inr final
           \<and> sum_list (map wordCount_fc final) = length (corpusWords chapters)"
proof -
  from workingPartition_result [OF assms] obtain chunks where
    c: "workingPartition chapters chunkCount = Inr chunks" "chain 0 chunks"
    "allWords chunks = corpusWords chapters"
    by blast
  have "sum_list (map wordCount chunks) = length (corpusWords chapters)"
    using chain_length_allWords [OF c(2)] c(3) by (simp add: wordTotal_def)
  then show ?thesis
    by (simp add: splitIntoChunks_formats c(1) formatFinalChunks_wordCount)
qed

theorem partition_conserves_words_witness:
  "(\<exists>final. splitIntoChunks demoChapters 2 = Inr final
       \<and> sum_list (map wordCount_fc final) = length (corpusWords demoChapters))
   \<and> map_sum id (map wordCount_fc) (splitIntoChunks demoChapters 2) = Inr [5, 2]
   \<and> corpusWords demoChapters = [''a'', ''b.'', ''c'', ''d'', ''e'', ''f'', ''g'']"
proof -
  have a: "map_sum id (map wordCount_fc) (splitIntoChunks demoChapters 2) = Inr [5, 2]"
    by code_simp
  have b: "corpusWords demoChapters = [''a'', ''b.'', ''c'', ''d'', ''e'', ''f'', ''g'']"
    by code_simp
  show ?thesis
    using a b partition_conserves_words [of 2 demoChapters] by simp
qed

text \<open>
  Claim C10. For a target count of at least 2, one refinement iteration applied to a
  chunk list that is not empty (no run hands it an empty one) returns exactly the target
  number of chunks, and so the final partition of every chapter list has exactly the
  requested number of chunks.
\<close>

theorem refinement_returns_target_count:
  assumes "2 \<le> targetCount"
  shows "(chunks \<noteq> [] \<longrightarrow>
            (\<exists>r. performChunkRefinement chunks targetCount targetWords tolerance = Inr r
                 \<and> int (length r) = targetCount))
         \<and> (\<exists>final. splitIntoChunks chapters targetCount = Inr final
                 \<and> int (length final) = targetCount)"
proof -
  have "\<exists>r. performChunkRefinement chunks targetCount targetWords tolerance = Inr r
           \<and> int (length r) = targetCount" if "chunks \<noteq> []"
    using performChunkRefinement_result [OF that assms, of targetWords tolerance 0] by blast
  moreover from workingPartition_result [OF assms] obtain cs where
    "workingPartition chapters targetCount = Inr cs" "int (length cs) = targetCount"
    by blast
  then have "\<exists>final. splitIntoChunks chapters targetCount = Inr final
                 \<and> int (length final) = targetCount"
    by (simp add: splitIntoChunks_formats formatFinalChunks_def)
  ultimately show ?thesis by blast
qed

theorem refinement_returns_target_count_witness:
  "(\<exists>r. performChunkRefinement (initialChunkSplit
            (combineContentWithMarkers (fullContentOf demoChapters)) 2 3) 3 3 0 = Inr r
        \<and> int (length r) = 3)
   \<and> (\<exists>final. splitIntoChunks demoChapters 3 = Inr final \<and> int (length final) = 3)
   \<and> map_sum id (map wordCount)
        (performChunkRefinement (initialChunkSplit
            (combineContentWithMarkers (fullContentOf demoChapters)) 2 3) 3 3 0) = Inr [3, 2, 2]
   \<and> map_sum id (map wordCount_fc) (splitIntoChunks demoChapters 3) = Inr [3, 2, 2]"
proof -
  have ne: "initialChunkSplit (combineContentWithMarkers (fullContentOf demoChapters)) 2 3 \<noteq> []"
    by code_simp
  have a: "map_sum id (map wordCount)
        (performChunkRefinement (initialChunkSplit
            (combineContentWithMarkers (fullContentOf demoChapters)) 2 3) 3 3 0) = Inr [3, 2, 2]"
    by code_simp
  have b: "map_sum id (map wordCount_fc) (splitIntoChunks demoChapters 3) = Inr [3, 2, 2]"
    by code_simp
  show ?thesis
    using ne a b
      refinement_returns_target_count [of 3
        "initialChunkSplit (combineContentWithMarkers (fullContentOf demoChapters)) 2 3"
        3 0 demoChapters]
    by simp
qed

text \<open>
  Claim C9. For every chapter list and every chunk count of at least 2 the partitioning
  returns. The recursion is at most five rounds of the refinement iteration. In a round,
  the step of the merge loop succeeds and strictly decreases the number of chunks whenever
  there are more chunks than requested, the step of the split loop succeeds and strictly
  increases it on any list that is not empty (also when the largest chunk has no word or
  one word), and both loops return.
\<close>

theorem partitioning_terminates:
  assumes "2 \<le> chunkCount"
  shows "(\<exists>final. splitIntoChunks chapters chunkCount = Inr final)
         \<and> (\<exists>n \<le> 5. workingPartition chapters chunkCount =
               refinementRounds n
                 (initialChunkSplit (combineContentWithMarkers (fullContentOf chapters)) chunkCount
                    (targetWordsPerChunkOf chapters chunkCount))
                 chunkCount (targetWordsPerChunkOf chapters chunkCount)
                 (toleranceOf chapters chunkCount))
         \<and> (chunkCount < int (length cs) \<longrightarrow>
               (\<exists>cs'. mergeSmallest cs = Inr cs' \<and> length cs' < length cs))
         \<and> (\<exists>r. mergeLoop cs chunkCount = Inr r)
         \<and> (cs \<noteq> [] \<longrightarrow>
               (\<exists>cs'. splitLargest cs = Inr cs' \<and> length cs < length cs')
               \<and> (\<exists>r. splitLoop cs chunkCount = Inr r))"
proof -
  have ret: "\<exists>final. splitIntoChunks chapters chunkCount = Inr final"
    using workingPartition_result [OF assms, of chapters]
    by (auto simp: splitIntoChunks_formats)
  have rounds: "\<exists>n \<le> 5. workingPartition chapters chunkCount =
               refinementRounds n
                 (initialChunkSplit (combineContentWithMarkers (fullContentOf chapters)) chunkCount
                    (targetWordsPerChunkOf chapters chunkCount))
                 chunkCount (targetWordsPerChunkOf chapters chunkCount)
                 (toleranceOf chapters chunkCount)"
    unfolding workingPartition_def refinedPartition_def Let_def
    using refineChunksRecursively_rounds [of 5 0] by simp
  have merge: "\<exists>cs'. mergeSmallest cs = Inr cs' \<and> length cs' < length cs"
    if big: "chunkCount < int (length cs)"
  proof -
    from big assms have "2 \<le> length cs" by linarith
    then obtain cs' where "mergeSmallest cs = Inr cs'"
      using mergeSmallest_ok by blast
    then show ?thesis
      using mergeSmallest_length [of cs cs'] by auto
  qed
  have mloop: "\<exists>r. mergeLoop cs chunkCount = Inr r"
    using mergeLoop_length [OF assms, of cs] by blast
  have split: "(\<exists>cs'. splitLargest cs = Inr cs' \<and> length cs < length cs')
               \<and> (\<exists>r. splitLoop cs chunkCount = Inr r)" if ne: "cs \<noteq> []"
  proof -
    obtain cs' where "splitLargest cs = Inr cs'"
      using splitLargest_ok [OF ne] by blast
    then have "\<exists>cs'. splitLargest cs = Inr cs' \<and> length cs < length cs'"
      using splitLargest_length [of cs cs'] by auto
    moreover have "\<exists>r. splitLoop cs chunkCount = Inr r"
      using splitLoop_length [OF ne, of chunkCount] by blast
    ultimately show ?thesis by blast
  qed
  from ret rounds merge mloop split show ?thesis by blast
qed

theorem partitioning_terminates_witness:
  "(\<exists>final. splitIntoChunks demoChapters 2 = Inr final)
   \<and> (\<exists>n \<le> 5. workingPartition demoChapters 2 =
          refinementRounds n
            (initialChunkSplit (combineContentWithMarkers (fullContentOf demoChapters)) 2
               (targetWordsPerChunkOf demoChapters 2))
            2 (targetWordsPerChunkOf demoChapters 2) (toleranceOf demoChapters 2))
   \<and> (\<exists>cs'. mergeSmallest threeChunks = Inr cs' \<and> length cs' < length threeChunks)
   \<and> (\<exists>r. mergeLoop threeChunks 2 = Inr r)
   \<and> (\<exists>cs'. splitLargest threeChunks = Inr cs' \<and> length threeChunks < length cs')
   \<and> (\<exists>r. splitLoop threeChunks 2 = Inr r)
   \<and> map_sum id (map wordCount) (mergeLoop threeChunks 2) = Inr [4, 3]
   \<and> map_sum id (map wordCount) (splitLoop [emptyChunk] 2) = Inr [0, 0]"
proof -
  have big: "2 < int (length threeChunks)" by code_simp
  have ne: "threeChunks \<noteq> []" by code_simp
  have a: "map_sum id (map wordCount) (mergeLoop threeChunks 2) = Inr [4, 3]" by code_simp
  have b: "map_sum id (map wordCount) (splitLoop [emptyChunk] 2) = Inr [0, 0]" by code_simp
  show ?thesis
    using big ne a b partitioning_terminates [of 2 demoChapters threeChunks] by simp
qed

section \<open>Splitting and merging in the first loop\<close>



section \<open>Extraction and the entry points\<close>

text \<open>
  Claim C8. Every chapter in the output of navigation-driven extraction has a word count
  above 10 (the count of its extracted plain text), so a chapter with 10 words or fewer
  never appears there. Spine-fallback extraction has no such filter: every spine entry
  whose manifest resource is found, is in the archive and is extracted without an
  exception appears in its output with its own index, whatever its word count.
\<close>

theorem word_count_filter_asymmetric:
  "(\<forall>ch \<in> set (extractChaptersFromNavigation svc manifest navigation []).
       10 < wordCount_ch ch \<and> wordCount_ch ch = countWords (textContent_ch ch))
   \<and> (i < length spine \<and> map_of manifest (idref (spine ! i)) = Some item
        \<and> files svc (href item)
        \<and> extractHTMLContent svc (href item) = Inr html
        \<and> extractTextContent svc html = Inr plain
      \<longrightarrow> (\<exists>ch \<in> set (extractChaptersFromSpine svc manifest spine []).
              spineOrder ch = i \<and> id_ch ch = ''spine-'' @ showNat i
              \<and> htmlContent_ch ch = html \<and> textContent_ch ch = plain
              \<and> wordCount_ch ch = countWords plain))"
proof -
  have nav: "\<forall>ch \<in> set (extractChaptersFromNavigation svc manifest navigation []).
       10 < wordCount_ch ch \<and> wordCount_ch ch = countWords (textContent_ch ch)"
    unfolding extractChaptersFromNavigation_def keptChapter_def [symmetric]
    by (rule navigationFold_kept) simp
  have sp: "\<exists>ch \<in> set (extractChaptersFromSpine svc manifest spine []).
              spineOrder ch = i \<and> id_ch ch = ''spine-'' @ showNat i
              \<and> htmlContent_ch ch = html \<and> textContent_ch ch = plain
              \<and> wordCount_ch ch = countWords plain"
    if "i < length spine" "map_of manifest (idref (spine ! i)) = Some item"
      "files svc (href item)" "extractHTMLContent svc (href item) = Inr html"
      "extractTextContent svc html = Inr plain"
    using spineLoop_has [OF that, where i = 0 and chapters = "[]"]
    unfolding extractChaptersFromSpine_def by simp
  from nav sp show ?thesis by blast
qed

theorem word_count_filter_asymmetric_witness:
  "map wordCount_ch (extractChaptersFromNavigation demoServices demoManifest demoNavigation [])
     = [13, 13]
   \<and> map wordCount_ch (extractChaptersFromSpine demoServices demoManifest demoSpine [])
     = [13, 13, 3]
   \<and> (\<exists>ch \<in> set (extractChaptersFromSpine demoServices demoManifest demoSpine []).
         spineOrder ch = 2 \<and> id_ch ch = ''spine-'' @ showNat 2
         \<and> htmlContent_ch ch = ''<p>A short note.</p>'' \<and> textContent_ch ch = ''A short note.''
         \<and> wordCount_ch ch = countWords ''A short note.'')
   \<and> countWords ''A short note.'' = 3"
proof -
  have a: "map wordCount_ch (extractChaptersFromNavigation demoServices demoManifest demoNavigation [])
     = [13, 13]" by code_simp
  have b: "map wordCount_ch (extractChaptersFromSpine demoServices demoManifest demoSpine [])
     = [13, 13, 3]" by code_simp
  have c: "countWords ''A short note.'' = 3" by code_simp
  have h1: "2 < length demoSpine" by code_simp
  have h2: "map_of demoManifest (idref (demoSpine ! 2))
      = Some \<lparr> href = ''OEBPS/note.xhtml'', mediaType = ''application/xhtml+xml'', properties = [] \<rparr>"
    by code_simp
  have h3: "files demoServices ''OEBPS/note.xhtml''" by code_simp
  have h4: "extractHTMLContent demoServices ''OEBPS/note.xhtml'' = Inr ''<p>A short note.</p>''"
    by code_simp
  have h5: "extractTextContent demoServices ''<p>A short note.</p>'' = Inr ''A short note.''"
    by code_simp
  show ?thesis
    using a b c h1 h2 h3 h4 h5
      word_count_filter_asymmetric [where svc = demoServices and manifest = demoManifest
        and navigation = demoNavigation and i = 2 and spine = demoSpine
        and item = "\<lparr> href = ''OEBPS/note.xhtml'', mediaType = ''application/xhtml+xml'',
                      properties = [] \<rparr>"
        and html = "''<p>A short note.</p>''" and plain = "''A short note.''"]
    by simp
qed

text \<open>
  Claim C3 says that sorting the chapters by \<open>spineOrder\<close> reproduces the reading order
  of the spine. The navigation-driven path takes \<open>spineOrder\<close> from the digits of the
  manifest identifier, not from the spine. In the archive below the spine reads
  \<^verbatim>\<open>one.xhtml\<close> (identifier \<^verbatim>\<open>ch1\<close>) before \<^verbatim>\<open>end.xhtml\<close> (identifier \<^verbatim>\<open>epilogue\<close>); the
  chapters get the orders 1 and 0, so the sort puts the epilogue first. The spine path
  numbers the same documents 0, 1, 2.
\<close>

theorem spine_order_from_identifier_digits:
  "map title_ch (extractChapters demoServices demoManifest demoSpine (Some demoNavigation))
     = [''Chapter One'', ''Epilogue'']
   \<and> map spineOrder (extractChapters demoServices demoManifest demoSpine (Some demoNavigation))
     = [1, 0]
   \<and> map title_ch (sort_key spineOrder
          (extractChapters demoServices demoManifest demoSpine (Some demoNavigation)))
     = [''Epilogue'', ''Chapter One'']
   \<and> map (\<lambda>sp. map_option href (map_of demoManifest (idref sp))) demoSpine
     = [Some ''OEBPS/one.xhtml'', Some ''OEBPS/end.xhtml'', Some ''OEBPS/note.xhtml'']
   \<and> map spineOrder (extractChapters demoServices demoManifest demoSpine None) = [0, 1, 2]"
  by code_simp

text \<open>
  Claim C5 says that the target is the number of tokens of the corpus divided by the chunk
  count. The code divides the sum of the chapters' \<open>wordCount\<close> fields, and
  \<^const>\<open>countWords\<close> leaves out every token with no letter, digit or underscore. A chapter
  text with three dashes has 7 tokens and a word count of 4: for 2 chunks the target is 2,
  not 3.
\<close>

theorem target_from_filtered_word_count:
  "wordCount_ch dashChapter = 4
   \<and> corpusWords [dashChapter] = [''one'', ''-'', ''two'', ''-'', ''three'', ''-'', ''four'']
   \<and> targetWordsPerChunkOf [dashChapter] 2 = 2
   \<and> int (length (corpusWords [dashChapter])) div 2 = 3
   \<and> toleranceOf [dashChapter] 2 = 0"
  by code_simp

text \<open>
  Claim C4 says that the partition operation rejects a chunk count below 2. The preview
  \<^const>\<open>calculateChunks\<close> does; \<^const>\<open>splitIntoChunks\<close> has no such check and, for the
  count 1, returns one chunk holding the whole corpus; for the count 0 it returns no chunk,
  and for a negative count the merge loop reads a chunk of an empty list and throws a
  TypeError.
\<close>

theorem splitIntoChunks_unchecked_count:
  "calculateChunks demoChapters (Some 1) = Inl ValidationError
   \<and> calculateChunks demoChapters None = Inl ValidationError
   \<and> map_sum id (map wordCount_fc) (splitIntoChunks demoChapters 1) = Inr [7]
   \<and> map_sum id (map wordCount_fc) (splitIntoChunks demoChapters 0) = Inr []
   \<and> splitIntoChunks demoChapters (- 1) = Inl TypeError"
  by code_simp

end
